theory Spec2Isabelle
  imports
    Complex_Main
    "HOL-Library.Multiset"
    "HOL-Library.Product_Lexorder"
    "HOL-Library.List_Lexorder"
begin

section \<open>Python values, errors and the random source\<close>

text \<open>
  The model follows \<open>genetic.py\<close> and \<open>greedy.py\<close> function by function and
  keeps their names; a leading underscore is dropped (\<open>_get_valid_swath\<close> is
  \<open>get_valid_swath\<close>), and the parameter \<open>size\<close> is written \<open>size'\<close>.

  The exceptions the modelled code can raise. \<open>assert\<close> raises \<open>AssertionError\<close>,
  \<open>set.pop\<close> on an empty set and \<open>set.remove\<close> of an absent element raise
  \<open>KeyError\<close>, indexing out of range raises \<open>IndexError\<close>, \<open>random.sample\<close> on a
  population smaller than the sample and \<open>max\<close> of an empty sequence raise
  \<open>ValueError\<close>, and handing a tour that still holds \<open>None\<close> to the external
  distance function is a \<open>TypeError\<close>; \<open>%\<close> by zero raises
  \<open>ZeroDivisionError\<close>.
\<close>

datatype error =
  AssertionError | IndexError | KeyError | ValueError | TypeError | ZeroDivisionError

text \<open>
  The module draws from Python's global random generator in three ways:
  \<open>sample(range(seq_length + 1), 2)\<close> in \<open>_random_slice\<close>,
  \<open>sample(population, 2)\<close> in \<open>_tournament_selection\<close> and \<open>random()\<close> in
  \<open>genetic\<close>. A run of the program is determined by the sequence of outcomes of these
  calls. The random source is that sequence: draw number \<open>i\<close> of the run is read as
  \<open>cuts\<close> when the \<open>i\<close>-th call is the sample of two cut points, as \<open>picks\<close>
  (two positions in the population) when it is the sample of two members, and as
  \<open>coin\<close> when it is \<open>random()\<close>. The state of the generator is the number of draws
  consumed so far (the cursor).
\<close>

record draw =
  cuts :: "nat \<times> nat"
  picks :: "nat \<times> nat"
  coin :: real

type_synonym rnd = "nat \<Rightarrow> draw"

text \<open>
  A computation that may raise, may run forever, and consumes random draws: the result
  is \<open>None\<close> when it never returns, and otherwise the outcome (\<open>Inl\<close> the exception,
  \<open>Inr\<close> the returned value) with the cursor at that moment.
\<close>

type_synonym 'a outcome = "((error + 'a) \<times> nat) option"

text \<open>Python's \<open>slice(start, stop)\<close> object with non-negative bounds.\<close>

record slice =
  start :: nat
  stop :: nat

text \<open>
  \<open>seq[sl]\<close> and \<open>seq[sl] = values\<close> for a slice with non-negative bounds and no
  step: bounds beyond the end are clipped to the length, and a slice whose stop lies
  before its start is empty and sits at \<open>start\<close>.
\<close>

definition getslice :: "'a list \<Rightarrow> slice \<Rightarrow> 'a list" where
  "getslice seq sl = take (stop sl - start sl) (drop (start sl) seq)"

definition setslice :: "'a list \<Rightarrow> slice \<Rightarrow> 'a list \<Rightarrow> 'a list" where
  "setslice seq sl vals = take (start sl) seq @ vals @ drop (max (start sl) (stop sl)) seq"

section \<open>Swath selection\<close>

text \<open>
  \<open>_random_slice(seq_length)\<close>: the assertion, then
  \<open>sample(range(seq_length + 1), 2)\<close>, which consumes one draw, ordered by
  \<open>min\<close> and \<open>max\<close>.
\<close>

definition random_slice :: "rnd \<Rightarrow> int \<Rightarrow> nat \<Rightarrow> (error + slice) \<times> nat" where
  "random_slice r seq_length c =
     (if \<not> seq_length > 0 then (Inl AssertionError, c)
      else let cut_points = cuts (r c);
               first_cut = min (fst cut_points) (snd cut_points);
               last_cut = max (fst cut_points) (snd cut_points)
           in (Inr \<lparr>start = first_cut, stop = last_cut\<rparr>, Suc c))"

text \<open>
  The first loop of \<open>_get_valid_swath\<close>:
  \<open>while (swath.stop - swath.start) <= 1: swath = _random_slice(seq_length)\<close>.
\<close>

partial_function (option) resample_short :: "rnd \<Rightarrow> int \<Rightarrow> slice \<Rightarrow> nat \<Rightarrow> slice outcome" where
  "resample_short r seq_length swath c =
     (if int (stop swath) - int (start swath) \<le> 1
      then (case random_slice r seq_length c of
              (Inl e, c') \<Rightarrow> Some (Inl e, c')
            | (Inr swath', c') \<Rightarrow> resample_short r seq_length swath' c')
      else Some (Inr swath, c))"

declare resample_short.simps [code]

text \<open>
  The second loop:
  \<open>while (swath.start == 0) and (swath.stop == seq_length): swath = _random_slice(seq_length)\<close>.
\<close>

partial_function (option) resample_full :: "rnd \<Rightarrow> int \<Rightarrow> slice \<Rightarrow> nat \<Rightarrow> slice outcome" where
  "resample_full r seq_length swath c =
     (if start swath = 0 \<and> int (stop swath) = seq_length
      then (case random_slice r seq_length c of
              (Inl e, c') \<Rightarrow> Some (Inl e, c')
            | (Inr swath', c') \<Rightarrow> resample_full r seq_length swath' c')
      else Some (Inr swath, c))"

declare resample_full.simps [code]

text \<open>\<open>_get_valid_swath(seq_length)\<close>: the assertion, one draw, then the two loops in turn.\<close>

definition get_valid_swath :: "rnd \<Rightarrow> int \<Rightarrow> nat \<Rightarrow> slice outcome" where
  "get_valid_swath r seq_length c =
     (if \<not> seq_length > 2 then Some (Inl AssertionError, c)
      else (case random_slice r seq_length c of
              (Inl e, c') \<Rightarrow> Some (Inl e, c')
            | (Inr swath, c') \<Rightarrow>
                (case resample_short r seq_length swath c' of
                   None \<Rightarrow> None
                 | Some (Inl e, c'') \<Rightarrow> Some (Inl e, c'')
                 | Some (Inr swath', c'') \<Rightarrow> resample_full r seq_length swath' c'')))"

section \<open>Mutation: simple inversion\<close>

text \<open>
  \<open>sim(seq)\<close> works in place and returns nothing: the model returns the outcome with
  the sequence as the call leaves it (also when it raises) and the cursor.
  \<open>seq[swath] = reversed(seq[swath])\<close> is the slice assignment of the reversed slice.
\<close>

definition sim :: "rnd \<Rightarrow> 'a list \<Rightarrow> nat \<Rightarrow> ((error + unit) \<times> 'a list \<times> nat) option" where
  "sim r seq c =
     (if \<not> length seq > 2 then Some (Inl AssertionError, seq, c)
      else (case get_valid_swath r (int (length seq)) c of
              None \<Rightarrow> None
            | Some (Inl e, c') \<Rightarrow> Some (Inl e, seq, c')
            | Some (Inr swath, c') \<Rightarrow>
                Some (Inr (), setslice seq swath (rev (getslice seq swath)), c')))"

section \<open>Crossover: OX1\<close>

text \<open>
  The child starts as \<open>length * [None]\<close>: its genes are \<open>None\<close> or a value, an
  \<open>'a option\<close>. The loop of \<open>_fill_missing_genes\<close> over
  \<open>source_offset in range(source_length)\<close> is a recursion over the list of offsets; its
  state is the target and \<open>target_offset\<close>. Reading \<open>source[idx_source]\<close> and
  writing \<open>target[idx_target]\<close> raise \<open>IndexError\<close> out of range, and
  \<open>% source_length\<close> raises \<open>ZeroDivisionError\<close> for an empty source (the loop
  then has no iteration).
\<close>

fun fill_loop :: "nat \<Rightarrow> nat \<Rightarrow> 'a list \<Rightarrow> 'a option set \<Rightarrow> nat list
    \<Rightarrow> 'a option list \<Rightarrow> nat \<Rightarrow> error + 'a option list" where
  "fill_loop source_length start_point source already_filled_values [] target target_offset =
     Inr target"
| "fill_loop source_length start_point source already_filled_values (source_offset # offsets)
       target target_offset =
     (if source_length = 0 then Inl ZeroDivisionError
      else let idx_source = (source_offset + start_point) mod source_length
      in if \<not> idx_source < length source then Inl IndexError
      else let next_val = source ! idx_source
      in if Some next_val \<notin> already_filled_values
         then let idx_target = (target_offset + start_point) mod source_length
              in if \<not> idx_target < length target then Inl IndexError
                 else fill_loop source_length start_point source already_filled_values offsets
                        (target[idx_target := Some next_val]) (target_offset + 1)
         else fill_loop source_length start_point source already_filled_values offsets
                target target_offset)"

definition fill_missing_genes :: "slice \<Rightarrow> 'a list \<Rightarrow> 'a option list \<Rightarrow> error + 'a option list" where
  "fill_missing_genes prefilled_slice source target =
     (let source_length = length source;
          start_point = stop prefilled_slice;
          already_filled_values = set (getslice target prefilled_slice)
      in fill_loop source_length start_point source already_filled_values
           [0..<source_length] target 0)"

text \<open>
  The part of \<open>ox1\<close> that follows the choice of the swath: the child of
  \<open>length * [None]\<close>, the copy of the swath from the main parent, and the filling from
  the secondary parent.
\<close>

definition ox1_with :: "slice \<Rightarrow> 'a list \<Rightarrow> 'a list \<Rightarrow> error + 'a option list" where
  "ox1_with swath main_seq secondary_seq =
     (let child = replicate (length main_seq) None;
          child = setslice child swath (map Some (getslice main_seq swath))
      in fill_missing_genes swath secondary_seq child)"

definition ox1 :: "rnd \<Rightarrow> 'a list \<Rightarrow> 'a list \<Rightarrow> nat \<Rightarrow> 'a option list outcome" where
  "ox1 r main_seq secondary_seq c =
     (if \<not> length main_seq = length secondary_seq then Some (Inl AssertionError, c)
      else (case get_valid_swath r (int (length main_seq)) c of
              None \<Rightarrow> None
            | Some (Inl e, c') \<Rightarrow> Some (Inl e, c')
            | Some (Inr swath, c') \<Rightarrow>
                (case ox1_with swath main_seq secondary_seq of
                   Inl e \<Rightarrow> Some (Inl e, c')
                 | Inr child \<Rightarrow> Some (Inr child, c'))))"

section \<open>The graph and the greedy constructor\<close>

text \<open>
  The graph is external to the module: \<open>graph.nodes()\<close> gives the nodes (an
  iterable, so a list that may repeat a node) and \<open>graph.distance(a, b)\<close> a cost.
\<close>

record 'a graph =
  nodes :: "'a list"
  distance :: "'a \<Rightarrow> 'a \<Rightarrow> real"

text \<open>
  \<open>min(iterable, key=f)\<close> returns the first element whose key is smallest: it keeps
  the best element so far and replaces it only by one with a strictly smaller key. On
  an empty iterable it raises \<open>ValueError\<close>.
\<close>

fun min_from :: "('a \<Rightarrow> real) \<Rightarrow> 'a \<Rightarrow> 'a list \<Rightarrow> 'a" where
  "min_from key best [] = best"
| "min_from key best (x # xs) = min_from key (if key x < key best then x else best) xs"

definition py_min :: "('a \<Rightarrow> real) \<Rightarrow> 'a list \<Rightarrow> error + 'a" where
  "py_min key xs = (case xs of [] \<Rightarrow> Inl ValueError | x # rest \<Rightarrow> Inr (min_from key x rest))"

text \<open>
  A Python set is modelled by the list of its elements, without repetition. The order
  in which a set enumerates its elements (for \<open>pop\<close> and for iteration) is left to
  the implementation: it is a parameter \<open>order\<close> of the model, which maps the
  elements of a set to their enumeration. \<open>set.pop()\<close> removes and returns the first
  element enumerated and raises \<open>KeyError\<close> on the empty set;
  \<open>set.remove(x)\<close> raises \<open>KeyError\<close> when \<open>x\<close> is absent.

  The loop \<open>while available_nodes\<close> of \<open>greedy\<close>, with the state
  \<open>prev_node\<close>, \<open>available_nodes\<close> and \<open>tour\<close>.
\<close>

function greedy_loop :: "('a list \<Rightarrow> 'a list) \<Rightarrow> 'a graph \<Rightarrow> 'a \<Rightarrow> 'a list \<Rightarrow> 'a list
    \<Rightarrow> error + 'a list" where
  "greedy_loop order g prev_node available_nodes tour =
     (if available_nodes = [] then Inr tour
      else (case py_min (\<lambda>x. distance g prev_node x) (order available_nodes) of
              Inl e \<Rightarrow> Inl e
            | Inr next_node \<Rightarrow>
                if next_node \<notin> set available_nodes then Inl KeyError
                else greedy_loop order g next_node (remove1 next_node available_nodes)
                       (tour @ [next_node])))"
  by pat_completeness auto
termination
  by (relation "measure (\<lambda>(order, g, prev_node, available_nodes, tour). length available_nodes)")
     (auto simp: length_remove1 intro!: diff_less length_pos_if_in_set)

definition greedy :: "('a list \<Rightarrow> 'a list) \<Rightarrow> 'a graph \<Rightarrow> error + 'a list" where
  "greedy order g =
     (let available_nodes = remdups (nodes g)
      in case order available_nodes of
           [] \<Rightarrow> Inl KeyError
         | prev_node # _ \<Rightarrow>
             greedy_loop order g prev_node (remove1 prev_node available_nodes) [prev_node])"

section \<open>The population\<close>

text \<open>
  A population member is the tuple \<open>(fitness, tour)\<close>; the population is a Python
  list of members. Python orders tuples and lists lexicographically, which is the
  order of pairs and lists here.
\<close>

type_synonym 'a member = "real \<times> 'a list"

text \<open>
  \<open>heapq.heappushpop\<close> belongs to Python's standard library. Its reference
  implementation (\<open>Lib/heapq.py\<close>) is modelled statement by statement.
  \<open>_siftdown(heap, startpos, pos)\<close> moves the item at \<open>pos\<close> towards the root:

  \<^verbatim>\<open>    newitem = heap[pos]
    while pos > startpos:
        parentpos = (pos - 1) >> 1
        parent = heap[parentpos]
        if newitem < parent:
            heap[pos] = parent
            pos = parentpos
            continue
        break
    heap[pos] = newitem\<close>

  The loop returns the heap and the position at which it stops. Every index it reads
  or writes is at most \<open>pos\<close>, so it stays within the list when \<open>pos\<close> does.
\<close>

function siftdown_loop :: "'b::linorder \<Rightarrow> nat \<Rightarrow> 'b list \<Rightarrow> nat \<Rightarrow> 'b list \<times> nat" where
  "siftdown_loop newitem startpos heap pos =
     (if pos > startpos
      then (if newitem < heap ! ((pos - 1) div 2)
            then siftdown_loop newitem startpos (heap[pos := heap ! ((pos - 1) div 2)])
                   ((pos - 1) div 2)
            else (heap, pos))
      else (heap, pos))"
  by pat_completeness auto
termination
  by (relation "measure (\<lambda>(newitem, startpos, heap, pos). pos)") auto

declare siftdown_loop.simps [simp del]

definition siftdown :: "'b::linorder list \<Rightarrow> nat \<Rightarrow> nat \<Rightarrow> 'b list" where
  "siftdown heap startpos pos =
     (let newitem = heap ! pos;
          (heap', pos') = siftdown_loop newitem startpos heap pos
      in heap'[pos' := newitem])"

text \<open>
  \<open>_siftup(heap, pos)\<close> moves the smaller child up until a leaf is reached, puts the
  item there and sifts it down again:

  \<^verbatim>\<open>    endpos = len(heap)
    startpos = pos
    newitem = heap[pos]
    childpos = 2*pos + 1
    while childpos < endpos:
        rightpos = childpos + 1
        if rightpos < endpos and not heap[childpos] < heap[rightpos]:
            childpos = rightpos
        heap[pos] = heap[childpos]
        pos = childpos
        childpos = 2*pos + 1
    heap[pos] = newitem
    _siftdown(heap, startpos, pos)\<close>

  The loop reads and writes below \<open>endpos\<close> only.
\<close>

function siftup_loop :: "'b::linorder list \<Rightarrow> nat \<Rightarrow> 'b list \<times> nat" where
  "siftup_loop heap pos =
     (if 2 * pos + 1 < length heap
      then (if 2 * pos + 2 < length heap \<and> \<not> heap ! (2 * pos + 1) < heap ! (2 * pos + 2)
            then siftup_loop (heap[pos := heap ! (2 * pos + 2)]) (2 * pos + 2)
            else siftup_loop (heap[pos := heap ! (2 * pos + 1)]) (2 * pos + 1))
      else (heap, pos))"
  by pat_completeness auto
termination
  by (relation "measure (\<lambda>(heap, pos). length heap - pos)") auto

declare siftup_loop.simps [simp del]

definition siftup :: "'b::linorder list \<Rightarrow> nat \<Rightarrow> 'b list" where
  "siftup heap pos =
     (let newitem = heap ! pos;
          (heap', pos') = siftup_loop heap pos
      in siftdown (heap'[pos' := newitem]) pos pos')"

text \<open>
  \<open>heappushpop(heap, item)\<close>:

  \<^verbatim>\<open>    if heap and heap[0] < item:
        item, heap[0] = heap[0], item
        _siftup(heap, 0)
    return item\<close>

  The model returns the item returned and the heap as the call leaves it.
\<close>

definition heappushpop :: "'b::linorder list \<Rightarrow> 'b \<Rightarrow> 'b \<times> 'b list" where
  "heappushpop heap item =
     (if heap \<noteq> [] \<and> heap ! 0 < item then (heap ! 0, siftup (heap[0 := item]) 0)
      else (item, heap))"

text \<open>
  \<open>update_population(item, population)\<close> returns nothing and updates the list in
  place: the model returns the population as the call leaves it. \<open>population[0]\<close>
  raises \<open>IndexError\<close> on an empty population.
\<close>

definition update_population :: "'a::linorder member \<Rightarrow> 'a member list \<Rightarrow> error + 'a member list" where
  "update_population item population =
     (if population = [] then Inl IndexError
      else if fst item > fst (population ! 0) then Inr (snd (heappushpop population item))
      else Inr population)"

section \<open>Fitness, initial population and the evolutionary loop\<close>

text \<open>
  Modelled from the spec: \<open>tour_length\<close> is imported by \<open>genetic.py\<close> from the
  module \<open>.algorithms\<close> of this repository, which is not among the source files at
  hand. The specification (4.3) defines it: the sum of \<open>distance\<close> over consecutive
  tour pairs, including the edge from the last node back to the first.
\<close>

fun path_length :: "'a graph \<Rightarrow> 'a list \<Rightarrow> real" where
  "path_length g (a # b # rest) = distance g a b + path_length g (b # rest)"
| "path_length g rest = 0"

definition tour_length :: "'a list \<Rightarrow> 'a graph \<Rightarrow> real" where
  "tour_length tour g =
     (if tour = [] then 0 else path_length g tour + distance g (last tour) (hd tour))"

definition get_fitness :: "'a list \<Rightarrow> 'a graph \<Rightarrow> real" where
  "get_fitness tour g = (let length' = tour_length tour g in - 1 * length')"

text \<open>
  The loop \<open>for _ in range(size - 1)\<close> of \<open>generate_population\<close>, by the number of
  iterations left. \<open>mutated_tour = initial_tour[:]\<close> is a copy, so \<open>sim\<close> leaves
  \<open>initial_tour\<close> as it is.
\<close>

fun fill_population :: "rnd \<Rightarrow> 'a graph \<Rightarrow> 'a list \<Rightarrow> nat \<Rightarrow> 'a member list \<Rightarrow> nat
    \<Rightarrow> 'a member list outcome" where
  "fill_population r g initial_tour 0 population c = Some (Inr population, c)"
| "fill_population r g initial_tour (Suc k) population c =
     (case sim r initial_tour c of
        None \<Rightarrow> None
      | Some (Inl e, _, c') \<Rightarrow> Some (Inl e, c')
      | Some (Inr _, mutated_tour, c') \<Rightarrow>
          fill_population r g initial_tour k
            (population @ [(get_fitness mutated_tour g, mutated_tour)]) c')"

text \<open>
  \<open>generate_population(graph, size)\<close>; \<open>range(size - 1)\<close> has
  \<open>size - 1\<close> elements, none when \<open>size \<le> 1\<close>.
\<close>

definition generate_population :: "('a list \<Rightarrow> 'a list) \<Rightarrow> rnd \<Rightarrow> 'a graph \<Rightarrow> int \<Rightarrow> nat
    \<Rightarrow> 'a member list outcome" where
  "generate_population order r g size' c =
     (case greedy order g of
        Inl e \<Rightarrow> Some (Inl e, c)
      | Inr initial_tour \<Rightarrow>
          fill_population r g initial_tour (nat (size' - 1))
            [(get_fitness initial_tour g, initial_tour)] c)"

text \<open>
  \<open>max(iterable, key=f)\<close> returns the first element whose key is largest and raises
  \<open>ValueError\<close> on an empty iterable.
\<close>

fun max_from :: "('a \<Rightarrow> real) \<Rightarrow> 'a \<Rightarrow> 'a list \<Rightarrow> 'a" where
  "max_from key best [] = best"
| "max_from key best (x # xs) = max_from key (if key x > key best then x else best) xs"

definition py_max :: "('a \<Rightarrow> real) \<Rightarrow> 'a list \<Rightarrow> error + 'a" where
  "py_max key xs = (case xs of [] \<Rightarrow> Inl ValueError | x # rest \<Rightarrow> Inr (max_from key x rest))"

text \<open>
  \<open>_tournament_selection(population)\<close>: \<open>sample(population, 2)\<close> raises
  \<open>ValueError\<close> on fewer than two members and otherwise consumes one draw, the
  positions of the two members chosen.
\<close>

definition tournament_selection :: "rnd \<Rightarrow> 'a member list \<Rightarrow> nat \<Rightarrow> 'a list outcome" where
  "tournament_selection r population c =
     (if length population < 2 then Some (Inl ValueError, c)
      else let chosen_items = [population ! fst (picks (r c)), population ! snd (picks (r c))]
           in (case py_max fst chosen_items of
                 Inl e \<Rightarrow> Some (Inl e, Suc c)
               | Inr best_item \<Rightarrow> Some (Inr (snd best_item), Suc c)))"

definition select_two_parents :: "rnd \<Rightarrow> 'a member list \<Rightarrow> nat \<Rightarrow> ('a list \<times> 'a list) outcome" where
  "select_two_parents r population c =
     (case tournament_selection r population c of
        None \<Rightarrow> None
      | Some (Inl e, c') \<Rightarrow> Some (Inl e, c')
      | Some (Inr parent1, c') \<Rightarrow>
          (case tournament_selection r population c' of
             None \<Rightarrow> None
           | Some (Inl e, c'') \<Rightarrow> Some (Inl e, c'')
           | Some (Inr parent2, c'') \<Rightarrow> Some (Inr (parent1, parent2), c'')))"

definition POPULATION_SIZE :: int where
  "POPULATION_SIZE = 200"

definition MAX_ITERATIONS :: int where
  "MAX_ITERATIONS = 50000"

definition MUTATION_PROBA :: real where
  "MUTATION_PROBA = 1 / 10"

text \<open>
  The statements that \<open>genetic\<close> runs for each of the two children of a generation:
  the crossover, the mutation when \<open>random() <= MUTATION_PROBA\<close> (one draw), the
  fitness and the update of the population. The fitness is computed by the external
  distance function, which is defined on nodes: a child that still holds \<open>None\<close> is
  not a list of nodes, and the model stops there with \<open>TypeError\<close>.
\<close>

definition breed :: "rnd \<Rightarrow> 'a::linorder graph \<Rightarrow> 'a list \<Rightarrow> 'a list \<Rightarrow> 'a member list \<Rightarrow> nat
    \<Rightarrow> 'a member list outcome" where
  "breed r g main_seq secondary_seq population c =
     (case ox1 r main_seq secondary_seq c of
        None \<Rightarrow> None
      | Some (Inl e, c1) \<Rightarrow> Some (Inl e, c1)
      | Some (Inr child, c1) \<Rightarrow>
          (case (if coin (r c1) \<le> MUTATION_PROBA then sim r child (Suc c1)
                 else Some (Inr (), child, Suc c1)) of
             None \<Rightarrow> None
           | Some (Inl e, _, c2) \<Rightarrow> Some (Inl e, c2)
           | Some (Inr _, child', c2) \<Rightarrow>
               (case those child' of
                  None \<Rightarrow> Some (Inl TypeError, c2)
                | Some tour \<Rightarrow>
                    (case update_population (get_fitness tour g, tour) population of
                       Inl e \<Rightarrow> Some (Inl e, c2)
                     | Inr population' \<Rightarrow> Some (Inr population', c2)))))"

text \<open>
  The body of the loop \<open>for _ in range(MAX_ITERATIONS)\<close> of \<open>genetic\<close>, one
  generation: select two parents, breed with the parents in one order and then in the
  other.
\<close>

definition generation :: "rnd \<Rightarrow> 'a::linorder graph \<Rightarrow> 'a member list \<Rightarrow> nat
    \<Rightarrow> 'a member list outcome" where
  "generation r g population c =
     (case select_two_parents r population c of
        None \<Rightarrow> None
      | Some (Inl e, c1) \<Rightarrow> Some (Inl e, c1)
      | Some (Inr (parent1, parent2), c1) \<Rightarrow>
          (case breed r g parent1 parent2 population c1 of
             None \<Rightarrow> None
           | Some (Inl e, c2) \<Rightarrow> Some (Inl e, c2)
           | Some (Inr population1, c2) \<Rightarrow> breed r g parent2 parent1 population1 c2))"

text \<open>The loop itself, by the number of generations left.\<close>

fun evolve :: "rnd \<Rightarrow> 'a::linorder graph \<Rightarrow> nat \<Rightarrow> 'a member list \<Rightarrow> nat
    \<Rightarrow> 'a member list outcome" where
  "evolve r g 0 population c = Some (Inr population, c)"
| "evolve r g (Suc k) population c =
     (case generation r g population c of
        None \<Rightarrow> None
      | Some (Inl e, c') \<Rightarrow> Some (Inl e, c')
      | Some (Inr population', c') \<Rightarrow> evolve r g k population' c')"

text \<open>
  \<open>genetic(graph)\<close> with the population size and the iteration budget as parameters,
  and with the module's constants.
\<close>

definition genetic_with :: "int \<Rightarrow> int \<Rightarrow> ('a list \<Rightarrow> 'a list) \<Rightarrow> rnd \<Rightarrow> 'a::linorder graph \<Rightarrow> nat
    \<Rightarrow> 'a list outcome" where
  "genetic_with population_size max_iterations order r g c =
     (case generate_population order r g population_size c of
        None \<Rightarrow> None
      | Some (Inl e, c1) \<Rightarrow> Some (Inl e, c1)
      | Some (Inr population, c1) \<Rightarrow>
          (case evolve r g (nat max_iterations) population c1 of
             None \<Rightarrow> None
           | Some (Inl e, c2) \<Rightarrow> Some (Inl e, c2)
           | Some (Inr population', c2) \<Rightarrow>
               (case py_max fst population' of
                  Inl e \<Rightarrow> Some (Inl e, c2)
                | Inr best \<Rightarrow> Some (Inr (snd best), c2))))"

definition genetic :: "('a list \<Rightarrow> 'a list) \<Rightarrow> rnd \<Rightarrow> 'a::linorder graph \<Rightarrow> nat \<Rightarrow> 'a list outcome" where
  "genetic order r g c = genetic_with POPULATION_SIZE MAX_ITERATIONS order r g c"

section \<open>Notions used to state the properties\<close>

subsection \<open>Draws and swaths\<close>

text \<open>
  The slice \<open>_random_slice\<close> makes of a draw, and the two loop conditions of
  \<open>_get_valid_swath\<close> as predicates on a slice.
\<close>

definition cut_slice :: "draw \<Rightarrow> slice" where
  "cut_slice d =
     \<lparr>start = min (fst (cuts d)) (snd (cuts d)), stop = max (fst (cuts d)) (snd (cuts d))\<rparr>"

definition too_short :: "slice \<Rightarrow> bool" where
  "too_short swath \<longleftrightarrow> int (stop swath) - int (start swath) \<le> 1"

definition covers_all :: "int \<Rightarrow> slice \<Rightarrow> bool" where
  "covers_all seq_length swath \<longleftrightarrow> start swath = 0 \<and> int (stop swath) = seq_length"

text \<open>
  The contract of \<open>sample(range(seq_length + 1), 2)\<close>: two different elements of
  \<open>{0, \<dots>, seq_length}\<close>.
\<close>

definition valid_cuts :: "rnd \<Rightarrow> int \<Rightarrow> bool" where
  "valid_cuts r seq_length \<longleftrightarrow>
     (\<forall>i. fst (cuts (r i)) \<noteq> snd (cuts (r i))
        \<and> int (fst (cuts (r i))) \<le> seq_length \<and> int (snd (cuts (r i))) \<le> seq_length)"

text \<open>
  From cursor \<open>c\<close> on, the source holds a draw that ends the first loop and, at or
  after it, a draw that ends the second one. This is exactly when
  \<open>_get_valid_swath\<close> returns (lemmas \<open>get_valid_swath_returns\<close> and
  \<open>get_valid_swath_diverges\<close>).
\<close>

definition swath_reachable :: "rnd \<Rightarrow> int \<Rightarrow> nat \<Rightarrow> bool" where
  "swath_reachable r seq_length c \<longleftrightarrow>
     (\<exists>j\<ge>c. \<not> too_short (cut_slice (r j))
        \<and> (\<exists>k\<ge>j. \<not> covers_all seq_length (cut_slice (r k))))"

text \<open>
  A loop that started with \<open>swath\<close> at cursor \<open>c\<close> and ended with \<open>swath'\<close> at
  cursor \<open>c'\<close> either drew nothing or holds the last slice drawn.
\<close>

definition last_drawn :: "rnd \<Rightarrow> slice \<Rightarrow> nat \<Rightarrow> slice \<Rightarrow> nat \<Rightarrow> bool" where
  "last_drawn r swath c swath' c' \<longleftrightarrow>
     (c' = c \<and> swath' = swath) \<or> (c < c' \<and> swath' = cut_slice (r (c' - 1)))"

text \<open>
  Concrete random sources: the cut points are read from a finite list and are
  \<open>d\<close> from then on; the members picked are the first two and \<open>random()\<close> is
  \<open>1/2\<close>.
\<close>

definition draws_from :: "(nat \<times> nat) list \<Rightarrow> nat \<times> nat \<Rightarrow> rnd" where
  "draws_from xs d i =
     \<lparr>cuts = (if i < length xs then xs ! i else d), picks = (0, 1), coin = 1 / 2\<rparr>"

subsection \<open>Tours and the order crossover\<close>

text \<open>A tour of a graph: a permutation of its node set.\<close>

definition is_tour :: "'a graph \<Rightarrow> 'a list \<Rightarrow> bool" where
  "is_tour g tour \<longleftrightarrow>
     length tour = card (set (nodes g)) \<and> distinct tour \<and> set tour = set (nodes g)"

text \<open>
  The specification's description of what OX1 takes from the secondary parent: its
  values in cyclic order from index \<open>stop\<close> on, without the values of the swath of the
  main parent.
\<close>

definition ox1_kept :: "slice \<Rightarrow> 'a list \<Rightarrow> 'a list \<Rightarrow> 'a list" where
  "ox1_kept swath main_seq secondary_seq =
     filter (\<lambda>v. v \<notin> set (getslice main_seq swath)) (rotate (stop swath) secondary_seq)"

text \<open>
  Writing a list of values into consecutive positions of the target, cyclically from
  position \<open>start_point + target_offset\<close> on: what the loop of
  \<open>_fill_missing_genes\<close> does with the values it accepts.
\<close>

fun write_cyclic :: "nat \<Rightarrow> nat \<Rightarrow> 'a list \<Rightarrow> 'a option list \<Rightarrow> nat \<Rightarrow> 'a option list" where
  "write_cyclic n start_point [] target target_offset = target"
| "write_cyclic n start_point (v # vs) target target_offset =
     write_cyclic n start_point vs
       (target[(target_offset + start_point) mod n := Some v]) (target_offset + 1)"

text \<open>
  The contract of the enumeration order of a set: each element once.
\<close>

definition enumerates :: "('a list \<Rightarrow> 'a list) \<Rightarrow> bool" where
  "enumerates order \<longleftrightarrow>
     (\<forall>xs. distinct xs \<longrightarrow> distinct (order xs) \<and> set (order xs) = set xs)"

text \<open>
  A concrete graph: the four nodes 0, 1, 2, 3 on a line, at the positions 0, 5, 1, 3,
  with the distance between the positions.
\<close>

definition line_graph :: "nat graph" where
  "line_graph =
     \<lparr>nodes = [0, 1, 2, 3],
      distance = (\<lambda>a b. \<bar>[0, 5, 1, 3] ! a - [0, 5, 1, 3] ! b\<bar>)\<rparr>"

subsection \<open>The population as a heap\<close>

text \<open>
  The population is a min-heap on fitness: no member has a smaller fitness than the
  member at its parent position.
\<close>

definition fitness_heap :: "'a member list \<Rightarrow> bool" where
  "fitness_heap population \<longleftrightarrow>
     (\<forall>i<length population. 0 < i \<longrightarrow>
        fst (population ! ((i - 1) div 2)) \<le> fst (population ! i))"

text \<open>A concrete population of three tours over the nodes 0, 1, 2, a heap on fitness.\<close>

definition small_population :: "nat member list" where
  "small_population = [(- 10, [0, 1, 2]), (- 8, [0, 2, 1]), (- 9, [1, 0, 2])]"

subsection \<open>Runs of the engine\<close>

text \<open>
  The contract of \<open>sample(population, 2)\<close> for a population of \<open>n\<close> members: two
  different positions.
\<close>

definition valid_picks :: "rnd \<Rightarrow> nat \<Rightarrow> bool" where
  "valid_picks r n \<longleftrightarrow>
     (\<forall>i. fst (picks (r i)) \<noteq> snd (picks (r i))
        \<and> fst (picks (r i)) < n \<and> snd (picks (r i)) < n)"

text \<open>The members of a population are tours of the graph with their fitness.\<close>

definition members_ok :: "'a graph \<Rightarrow> 'a member list \<Rightarrow> bool" where
  "members_ok g population \<longleftrightarrow>
     (\<forall>m \<in> set population. is_tour g (snd m) \<and> fst m = get_fitness (snd m) g)"



section \<open>Properties of swath selection\<close>

lemma random_slice_pos: "0 < n \<Longrightarrow> random_slice r n c = (Inr (cut_slice (r c)), Suc c)"
  by (simp add: random_slice_def cut_slice_def Let_def)

lemma last_drawn_refl: "last_drawn r swath c swath c"
  by (simp add: last_drawn_def)

lemma last_drawn_step:
  "last_drawn r (cut_slice (r c)) (Suc c) swath' c' \<Longrightarrow> last_drawn r swath c swath' c'"
  by (auto simp: last_drawn_def)

lemma resample_short_stop:
  "\<not> too_short swath \<Longrightarrow> resample_short r n swath c = Some (Inr swath, c)"
  by (subst resample_short.simps) (simp add: too_short_def)

lemma resample_short_step:
  "too_short swath \<Longrightarrow> 0 < n \<Longrightarrow>
   resample_short r n swath c = resample_short r n (cut_slice (r c)) (Suc c)"
  by (subst resample_short.simps) (simp add: too_short_def random_slice_pos)

lemma resample_short_returns:
  assumes "0 < n" "\<not> too_short (cut_slice (r (c + k)))"
  shows "\<exists>swath' c'. resample_short r n swath c = Some (Inr swath', c')
            \<and> last_drawn r swath c swath' c' \<and> c' \<le> Suc (c + k) \<and> \<not> too_short swath'"
  using assms(2)
proof (induction k arbitrary: c swath)
  case 0
  show ?case
  proof (cases "too_short swath")
    case True
    with 0 assms(1) have "resample_short r n swath c = Some (Inr (cut_slice (r c)), Suc c)"
      by (simp add: resample_short_step resample_short_stop)
    with 0 show ?thesis by (simp add: last_drawn_def)
  next
    case False
    then show ?thesis by (simp add: resample_short_stop last_drawn_refl)
  qed
next
  case (Suc k)
  show ?case
  proof (cases "too_short swath")
    case True
    from Suc.prems have "\<not> too_short (cut_slice (r (Suc c + k)))" by simp
    from Suc.IH[OF this, of "cut_slice (r c)"] obtain swath' c' where
      c': "resample_short r n (cut_slice (r c)) (Suc c) = Some (Inr swath', c')"
          "last_drawn r (cut_slice (r c)) (Suc c) swath' c'" "c' \<le> Suc (Suc c + k)"
          "\<not> too_short swath'"
      by blast
    with True assms(1) show ?thesis
      by (auto simp: resample_short_step dest: last_drawn_step)
  next
    case False
    then show ?thesis by (simp add: resample_short_stop last_drawn_refl)
  qed
qed

lemma resample_short_result:
  assumes "resample_short r n swath c = Some res"
  shows "0 < n \<Longrightarrow> \<exists>swath' c'. res = (Inr swath', c') \<and> last_drawn r swath c swath' c'
            \<and> \<not> too_short swath'"
  using assms
proof (induct rule: resample_short.raw_induct[rotated 1, consumes 1])
  case (1 rs r n swath c res)
  show ?case
  proof (cases "too_short swath")
    case True
    with 1(2,3) have "rs r n (cut_slice (r c)) (Suc c) = Some res"
      by (simp add: random_slice_pos too_short_def)
    from 1(1)[OF this 1(3)] show ?thesis
      by (auto dest: last_drawn_step)
  next
    case False
    with 1(2) show ?thesis by (auto simp: too_short_def last_drawn_refl)
  qed
qed

lemma resample_short_diverges:
  assumes "0 < n" "too_short swath" "\<forall>j\<ge>c. too_short (cut_slice (r j))"
  shows "resample_short r n swath c = None"
proof (rule ccontr)
  assume "resample_short r n swath c \<noteq> None"
  then obtain res where "resample_short r n swath c = Some res" by auto
  then have "0 < n \<Longrightarrow> too_short swath \<Longrightarrow> \<forall>j\<ge>c. too_short (cut_slice (r j)) \<Longrightarrow> False"
  proof (induct rule: resample_short.raw_induct[rotated 1, consumes 1])
    case (1 rs r n swath c res)
    from 1(2,3,4) have "rs r n (cut_slice (r c)) (Suc c) = Some res"
      by (simp add: random_slice_pos too_short_def)
    from 1(1)[OF this 1(3)] 1(5) show ?case by simp
  qed
  with assms show False by blast
qed

lemma resample_full_stop:
  "\<not> covers_all n swath \<Longrightarrow> resample_full r n swath c = Some (Inr swath, c)"
  by (subst resample_full.simps) (auto simp add: covers_all_def)

lemma resample_full_step:
  "covers_all n swath \<Longrightarrow> 0 < n \<Longrightarrow>
   resample_full r n swath c = resample_full r n (cut_slice (r c)) (Suc c)"
  by (subst resample_full.simps) (simp add: covers_all_def random_slice_pos)

lemma resample_full_returns:
  assumes "0 < n" "\<not> covers_all n (cut_slice (r (c + k)))"
  shows "\<exists>swath' c'. resample_full r n swath c = Some (Inr swath', c')
            \<and> last_drawn r swath c swath' c' \<and> c' \<le> Suc (c + k) \<and> \<not> covers_all n swath'"
  using assms(2)
proof (induction k arbitrary: c swath)
  case 0
  show ?case
  proof (cases "covers_all n swath")
    case True
    with 0 assms(1) have "resample_full r n swath c = Some (Inr (cut_slice (r c)), Suc c)"
      by (simp add: resample_full_step resample_full_stop)
    with 0 show ?thesis by (simp add: last_drawn_def)
  next
    case False
    then show ?thesis by (simp add: resample_full_stop last_drawn_refl)
  qed
next
  case (Suc k)
  show ?case
  proof (cases "covers_all n swath")
    case True
    from Suc.prems have "\<not> covers_all n (cut_slice (r (Suc c + k)))" by simp
    from Suc.IH[OF this, of "cut_slice (r c)"] obtain swath' c' where
      c': "resample_full r n (cut_slice (r c)) (Suc c) = Some (Inr swath', c')"
          "last_drawn r (cut_slice (r c)) (Suc c) swath' c'" "c' \<le> Suc (Suc c + k)"
          "\<not> covers_all n swath'"
      by blast
    with True assms(1) show ?thesis
      by (auto simp: resample_full_step dest: last_drawn_step)
  next
    case False
    then show ?thesis by (simp add: resample_full_stop last_drawn_refl)
  qed
qed

lemma resample_full_result:
  assumes "resample_full r n swath c = Some res"
  shows "0 < n \<Longrightarrow> \<exists>swath' c'. res = (Inr swath', c') \<and> last_drawn r swath c swath' c'
            \<and> \<not> covers_all n swath'"
  using assms
proof (induct rule: resample_full.raw_induct[rotated 1, consumes 1])
  case (1 rs r n swath c res)
  show ?case
  proof (cases "covers_all n swath")
    case True
    with 1(2,3) have "rs r n (cut_slice (r c)) (Suc c) = Some res"
      by (simp add: random_slice_pos covers_all_def)
    from 1(1)[OF this 1(3)] show ?thesis
      by (auto dest: last_drawn_step)
  next
    case False
    with 1(2) show ?thesis by (auto simp: covers_all_def last_drawn_refl)
  qed
qed

lemma resample_full_diverges:
  assumes "0 < n" "covers_all n swath" "\<forall>j\<ge>c. covers_all n (cut_slice (r j))"
  shows "resample_full r n swath c = None"
proof (rule ccontr)
  assume "resample_full r n swath c \<noteq> None"
  then obtain res where "resample_full r n swath c = Some res" by auto
  then have "0 < n \<Longrightarrow> covers_all n swath \<Longrightarrow> \<forall>j\<ge>c. covers_all n (cut_slice (r j)) \<Longrightarrow> False"
  proof (induct rule: resample_full.raw_induct[rotated 1, consumes 1])
    case (1 rs r n swath c res)
    from 1(2,3,4) have "rs r n (cut_slice (r c)) (Suc c) = Some res"
      by (simp add: random_slice_pos covers_all_def)
    from 1(1)[OF this 1(3)] 1(5) show ?case by simp
  qed
  with assms show False by blast
qed


lemma get_valid_swath_unfold:
  "2 < n \<Longrightarrow> get_valid_swath r n c =
     (case resample_short r n (cut_slice (r c)) (Suc c) of
        None \<Rightarrow> None
      | Some (Inl e, c'') \<Rightarrow> Some (Inl e, c'')
      | Some (Inr swath', c'') \<Rightarrow> resample_full r n swath' c'')"
  by (simp add: get_valid_swath_def random_slice_pos)

lemma get_valid_swath_returns:
  assumes n: "2 < n" and reach: "swath_reachable r n c"
  shows "\<exists>swath c'. get_valid_swath r n c = Some (Inr swath, c') \<and> c < c'
           \<and> swath = cut_slice (r (c' - 1)) \<and> \<not> covers_all n swath"
proof -
  from reach obtain j k where jk: "c \<le> j" "\<not> too_short (cut_slice (r j))"
      "j \<le> k" "\<not> covers_all n (cut_slice (r k))"
    by (auto simp: swath_reachable_def)
  from n have n0: "0 < n" by simp
  have "\<exists>swath1 c1. resample_short r n (cut_slice (r c)) (Suc c) = Some (Inr swath1, c1)
          \<and> c < c1 \<and> c1 \<le> Suc j \<and> swath1 = cut_slice (r (c1 - 1))"
  proof (cases "j = c")
    case True
    with jk(2) show ?thesis by (simp add: resample_short_stop)
  next
    case False
    with jk(1) have "j = Suc c + (j - Suc c)" by simp
    with jk(2) have "\<not> too_short (cut_slice (r (Suc c + (j - Suc c))))" by simp
    from resample_short_returns[where r = r and n = n and c = "Suc c" and k = "j - Suc c" and swath = "cut_slice (r c)", OF n0 this] jk(1) False
    show ?thesis by (auto simp: last_drawn_def)
  qed
  then obtain swath1 c1 where s1:
      "resample_short r n (cut_slice (r c)) (Suc c) = Some (Inr swath1, c1)"
      "c < c1" "c1 \<le> Suc j" "swath1 = cut_slice (r (c1 - 1))"
    by blast
  have "\<exists>swath2 c2. resample_full r n swath1 c1 = Some (Inr swath2, c2)
          \<and> c < c2 \<and> swath2 = cut_slice (r (c2 - 1)) \<and> \<not> covers_all n swath2"
  proof (cases "covers_all n swath1")
    case False
    with s1 show ?thesis by (simp add: resample_full_stop)
  next
    case True
    with s1(4) jk(4) have "k \<noteq> c1 - 1" by auto
    with s1(3) jk(3) have "k = c1 + (k - c1)" by simp
    with jk(4) have "\<not> covers_all n (cut_slice (r (c1 + (k - c1))))" by simp
    from resample_full_returns[where r = r and n = n and c = c1 and k = "k - c1" and swath = swath1, OF n0 this] s1(2,4)
    show ?thesis by (auto simp: last_drawn_def)
  qed
  with s1(1) n show ?thesis by (simp add: get_valid_swath_unfold)
qed

lemma get_valid_swath_result:
  assumes n: "2 < n" and res: "get_valid_swath r n c = Some res"
  shows "\<exists>swath c'. res = (Inr swath, c') \<and> c < c'
           \<and> swath = cut_slice (r (c' - 1)) \<and> \<not> covers_all n swath
           \<and> (\<exists>j. c \<le> j \<and> j < c' \<and> \<not> too_short (cut_slice (r j)))"
proof -
  from n have n0: "0 < n" by simp
  from res n obtain res1 where r1: "resample_short r n (cut_slice (r c)) (Suc c) = Some res1"
    by (auto simp: get_valid_swath_unfold split: option.splits)
  from resample_short_result[OF r1 n0] obtain swath1 c1 where s1:
      "res1 = (Inr swath1, c1)" "last_drawn r (cut_slice (r c)) (Suc c) swath1 c1"
      "\<not> too_short swath1"
    by blast
  from s1(2) have c1: "c < c1" "swath1 = cut_slice (r (c1 - 1))"
    by (auto simp: last_drawn_def)
  from s1(1) r1 res n have "resample_full r n swath1 c1 = Some res"
    by (simp add: get_valid_swath_unfold)
  from resample_full_result[OF this n0] obtain swath2 c2 where s2:
      "res = (Inr swath2, c2)" "last_drawn r swath1 c1 swath2 c2" "\<not> covers_all n swath2"
    by blast
  from s2(2) c1 have c2: "c1 \<le> c2" "swath2 = cut_slice (r (c2 - 1))"
    by (auto simp: last_drawn_def)
  from c1 c2 s1(3) have "c \<le> c1 - 1 \<and> c1 - 1 < c2 \<and> \<not> too_short (cut_slice (r (c1 - 1)))"
    by auto
  then have "\<exists>j. c \<le> j \<and> j < c2 \<and> \<not> too_short (cut_slice (r j))" by blast
  with s2(1,3) c1(1) c2 show ?thesis by auto
qed

lemma get_valid_swath_diverges:
  assumes n: "2 < n" and unreach: "\<not> swath_reachable r n c"
  shows "get_valid_swath r n c = None"
proof (rule ccontr)
  assume "get_valid_swath r n c \<noteq> None"
  then obtain res where "get_valid_swath r n c = Some res" by auto
  from get_valid_swath_result[OF n this] obtain c' j where
    "c \<le> j" "j < c'" "\<not> too_short (cut_slice (r j))" "\<not> covers_all n (cut_slice (r (c' - 1)))"
    by blast
  then have "swath_reachable r n c"
    unfolding swath_reachable_def by (intro exI[of _ j] conjI exI[of _ "c' - 1"]) auto
  with unreach show False by simp
qed

lemma get_valid_swath_fails_never:
  "2 < n \<Longrightarrow> get_valid_swath r n c \<noteq> Some (Inl e, c')"
  using get_valid_swath_result[of n r c "(Inl e, c')"] by auto

lemma cut_slice_bounds:
  assumes "valid_cuts r n"
  shows "start (cut_slice (r i)) < stop (cut_slice (r i)) \<and> int (stop (cut_slice (r i))) \<le> n"
proof -
  from assms have "fst (cuts (r i)) \<noteq> snd (cuts (r i))"
      "int (fst (cuts (r i))) \<le> n" "int (snd (cuts (r i))) \<le> n"
    by (simp_all add: valid_cuts_def)
  then show ?thesis by (auto simp: cut_slice_def min_def max_def)
qed

lemma get_valid_swath_bounds:
  assumes "2 < n" "valid_cuts r n" "get_valid_swath r n c = Some (Inr swath, c')"
  shows "start swath < stop swath \<and> int (stop swath) \<le> n \<and> \<not> covers_all n swath"
  using get_valid_swath_result[OF assms(1,3)] cut_slice_bounds[OF assms(2)] by auto

lemma draws_from_valid:
  assumes "\<forall>p \<in> set (d # xs). fst p \<noteq> snd p \<and> int (fst p) \<le> n \<and> int (snd p) \<le> n"
  shows "valid_cuts (draws_from xs d) n"
  using assms by (auto simp: valid_cuts_def draws_from_def)

text \<open>
  Claim C2 (swath bounds). \<open>_get_valid_swath\<close> does not keep the bound
  \<open>stop - start \<ge> 2\<close> that its docstring gives: the second loop resamples a swath
  that covers the whole sequence without checking the length of the new one. For
  length 3, when the sampler yields the cut points \<open>(0, 3)\<close> and then \<open>(0, 1)\<close>,
  both admissible outcomes of \<open>sample(range(4), 2)\<close>, the call returns the swath
  \<open>[0, 1)\<close> of one element.
\<close>

theorem get_valid_swath_one_element:
  "valid_cuts (draws_from [(0, 3), (0, 1)] (0, 1)) 3
   \<and> get_valid_swath (draws_from [(0, 3), (0, 1)] (0, 1)) 3 0
       = Some (Inr \<lparr>start = 0, stop = 1\<rparr>, 2)"
proof
  show "valid_cuts (draws_from [(0, 3), (0, 1)] (0, 1)) 3"
    by (rule draws_from_valid) simp
  show "get_valid_swath (draws_from [(0, 3), (0, 1)] (0, 1)) 3 0
       = Some (Inr \<lparr>start = 0, stop = 1\<rparr>, 2)"
    by (simp add: get_valid_swath_def random_slice_def resample_short.simps
        resample_full.simps draws_from_def)
qed

text \<open>
  Claim C8 (precondition checks). \<open>sim\<close> on a sequence of length at most 2,
  \<open>_get_valid_swath\<close> with a length of at most 2 and \<open>ox1\<close> with parents of
  different lengths raise \<open>AssertionError\<close>, whatever the random source holds, with
  the sequence and the cursor of the random source as they were before the call: no
  draw is consumed and nothing is written.
\<close>

theorem precondition_checks:
  "(length seq \<le> 2 \<longrightarrow> sim r seq c = Some (Inl AssertionError, seq, c))
   \<and> (n \<le> 2 \<longrightarrow> get_valid_swath r n c = Some (Inl AssertionError, c))
   \<and> (length main_seq \<noteq> length secondary_seq
        \<longrightarrow> ox1 r main_seq secondary_seq c = Some (Inl AssertionError, c))"
  by (simp add: sim_def get_valid_swath_def ox1_def)

theorem precondition_checks_witness:
  "sim (draws_from [] (0, 2)) [5, 7 :: nat] 0 = Some (Inl AssertionError, [5, 7], 0)
   \<and> get_valid_swath (draws_from [] (0, 2)) 2 0 = Some (Inl AssertionError, 0)
   \<and> ox1 (draws_from [] (0, 2)) [1, 2, 3 :: nat] [1, 2] 0 = Some (Inl AssertionError, 0)"
  using precondition_checks[of "[5, 7 :: nat]" "draws_from [] (0, 2)" 0 2
      "[1, 2, 3 :: nat]" "[1, 2]"]
  by simp

section \<open>Slices of lists\<close>

lemma seq_split3:
  "a \<le> b \<Longrightarrow> take a seq @ take (b - a) (drop a seq) @ drop b seq = seq"
  by (metis add_diff_cancel_left' append_take_drop_id drop_drop le_Suc_ex add.commute)

lemma length_setslice_same:
  assumes "start sl \<le> stop sl" "stop sl \<le> length seq" "length vals = stop sl - start sl"
  shows "length (setslice seq sl vals) = length seq"
  using assms by (simp add: setslice_def max_def)

lemma length_getslice:
  "stop sl \<le> length seq \<Longrightarrow> length (getslice seq sl) = stop sl - start sl"
  by (simp add: getslice_def)

lemma getslice_nth:
  "stop sl \<le> length seq \<Longrightarrow> k < stop sl - start sl \<Longrightarrow>
   getslice seq sl ! k = seq ! (start sl + k)"
  by (simp add: getslice_def)

lemma setslice_nth:
  assumes "start sl \<le> stop sl" "stop sl \<le> length seq" "length vals = stop sl - start sl"
    "i < length seq"
  shows "setslice seq sl vals ! i =
           (if start sl \<le> i \<and> i < stop sl then vals ! (i - start sl) else seq ! i)"
  using assms by (auto simp: setslice_def nth_append max_def)

lemma mset_setslice_rev:
  assumes "start sl \<le> stop sl"
  shows "mset (setslice seq sl (rev (getslice seq sl))) = mset seq"
proof -
  have "mset (setslice seq sl (rev (getslice seq sl)))
      = mset (take (start sl) seq @ take (stop sl - start sl) (drop (start sl) seq)
              @ drop (stop sl) seq)"
    using assms by (simp add: setslice_def getslice_def max_def)
  then show ?thesis using assms by (simp only: seq_split3)
qed

lemma sim_reversal_nth:
  assumes "start sl < stop sl" "stop sl \<le> length seq" "i < length seq"
  shows "setslice seq sl (rev (getslice seq sl)) ! i =
           (if start sl \<le> i \<and> i < stop sl then seq ! (start sl + stop sl - 1 - i) else seq ! i)"
proof -
  have len: "length (rev (getslice seq sl)) = stop sl - start sl"
    using assms by (simp add: length_getslice)
  show ?thesis
  proof (cases "start sl \<le> i \<and> i < stop sl")
    case True
    then have "i - start sl < length (getslice seq sl)"
      using assms by (simp add: length_getslice) linarith
    then have "rev (getslice seq sl) ! (i - start sl)
        = getslice seq sl ! (length (getslice seq sl) - Suc (i - start sl))"
      by (rule rev_nth)
    also have "\<dots> = getslice seq sl ! (stop sl - start sl - Suc (i - start sl))"
      using assms by (simp only: length_getslice)
    also have "\<dots> = seq ! (start sl + (stop sl - start sl - Suc (i - start sl)))"
      using assms True by (intro getslice_nth) auto
    also have "start sl + (stop sl - start sl - Suc (i - start sl)) = start sl + stop sl - 1 - i"
      using True by auto
    finally show ?thesis using assms len True by (simp add: setslice_nth)
  next
    case False
    then show ?thesis using assms len by (auto simp add: setslice_nth)
  qed
qed


lemma draws_from_reachable:
  assumes "\<not> too_short \<lparr>start = min (fst d) (snd d), stop = max (fst d) (snd d)\<rparr>"
      "\<not> covers_all n \<lparr>start = min (fst d) (snd d), stop = max (fst d) (snd d)\<rparr>"
  shows "swath_reachable (draws_from xs d) n c"
  unfolding swath_reachable_def
  using assms
  by (intro exI[of _ "c + length xs"] conjI) (auto simp: draws_from_def cut_slice_def)


section \<open>Properties of the inversion mutation\<close>

text \<open>
  Claim C7 (\<open>sim\<close> reverses one swath and leaves the rest). For a sequence longer
  than 2 and a sampler that keeps its contract: on every run in which the swath
  selection returns, \<open>sim\<close> returns, the swath \<open>[start, stop)\<close> it chose lies
  within the sequence, the sequence keeps its length, position \<open>i\<close> of the swath
  holds what position \<open>start + stop - 1 - i\<close> held before, and every position outside
  the swath holds what it held before. On the other runs the swath selection never
  returns and neither does \<open>sim\<close>.
\<close>

theorem sim_reverses_swath:
  assumes "2 < length seq" "valid_cuts r (int (length seq))"
  shows "(swath_reachable r (int (length seq)) c \<longrightarrow>
          (\<exists>swath c' seq'.
             get_valid_swath r (int (length seq)) c = Some (Inr swath, c')
             \<and> sim r seq c = Some (Inr (), seq', c')
             \<and> start swath < stop swath \<and> stop swath \<le> length seq
             \<and> length seq' = length seq
             \<and> (\<forall>i<length seq. seq' ! i =
                   (if start swath \<le> i \<and> i < stop swath
                    then seq ! (start swath + stop swath - 1 - i) else seq ! i))))
       \<and> (\<not> swath_reachable r (int (length seq)) c \<longrightarrow> sim r seq c = None)"
proof (intro conjI impI)
  assume "\<not> swath_reachable r (int (length seq)) c"
  with assms(1) show "sim r seq c = None"
    by (simp add: sim_def get_valid_swath_diverges)
next
  assume reach: "swath_reachable r (int (length seq)) c"
  have n: "2 < int (length seq)" using assms(1) by simp
  from get_valid_swath_returns[OF n reach] obtain swath c' where
    sw: "get_valid_swath r (int (length seq)) c = Some (Inr swath, c')"
    by blast
  from get_valid_swath_bounds[OF n assms(2) sw]
  have b: "start swath < stop swath" "stop swath \<le> length seq" by auto
  let ?seq' = "setslice seq swath (rev (getslice seq swath))"
  have "sim r seq c = Some (Inr (), ?seq', c')"
    using assms(1) sw by (simp add: sim_def)
  moreover have "length ?seq' = length seq"
    using b by (simp add: length_setslice_same length_getslice)
  moreover have "\<forall>i<length seq. ?seq' ! i =
                   (if start swath \<le> i \<and> i < stop swath
                    then seq ! (start swath + stop swath - 1 - i) else seq ! i)"
    using b by (simp add: sim_reversal_nth)
  ultimately show "\<exists>swath c' seq'.
             get_valid_swath r (int (length seq)) c = Some (Inr swath, c')
             \<and> sim r seq c = Some (Inr (), seq', c')
             \<and> start swath < stop swath \<and> stop swath \<le> length seq
             \<and> length seq' = length seq
             \<and> (\<forall>i<length seq. seq' ! i =
                   (if start swath \<le> i \<and> i < stop swath
                    then seq ! (start swath + stop swath - 1 - i) else seq ! i))"
    using sw b by blast
qed

theorem sim_reverses_swath_witness:
  "2 < length [10, 20, 30, 40, 50 :: nat]
   \<and> valid_cuts (draws_from [(4, 1)] (0, 2)) (int (length [10, 20, 30, 40, 50 :: nat]))
   \<and> swath_reachable (draws_from [(4, 1)] (0, 2)) (int (length [10, 20, 30, 40, 50 :: nat])) 0
   \<and> sim (draws_from [(4, 1)] (0, 2)) [10, 20, 30, 40, 50 :: nat] 0
       = Some (Inr (), [10, 40, 30, 20, 50], 1)"
proof -
  let ?r = "draws_from [(4, 1)] (0, 2)"
  let ?seq = "[10, 20, 30, 40, 50 :: nat]"
  have 1: "2 < length ?seq" by simp
  have 2: "valid_cuts ?r (int (length ?seq))" by (rule draws_from_valid) simp
  have 3: "swath_reachable ?r (int (length ?seq)) 0"
    by (rule draws_from_reachable) (simp_all add: too_short_def covers_all_def)
  have 4: "sim ?r ?seq 0 = Some (Inr (), [10, 40, 30, 20, 50], 1)"
    using sim_reverses_swath[OF 1 2, of 0] 3
    by (simp add: sim_def get_valid_swath_def random_slice_def resample_short.simps
        resample_full.simps draws_from_def setslice_def getslice_def)
  from 1 2 3 4 show ?thesis by blast
qed

section \<open>Properties of the order crossover\<close>

lemma fill_loop_write_cyclic:
  assumes "0 < length source" "length target = length source"
  shows "fill_loop (length source) s source F offsets target off =
     Inr (write_cyclic (length source) s
           (filter (\<lambda>v. Some v \<notin> F) (map (\<lambda>j. source ! ((j + s) mod length source)) offsets))
           target off)"
  using assms(2)
proof (induction offsets arbitrary: target off)
  case Nil
  show ?case by simp
next
  case (Cons j offsets)
  have "(j + s) mod length source < length source" "(off + s) mod length source < length target"
    using assms(1) Cons.prems by simp_all
  then show ?case using assms(1) Cons.prems Cons.IH by (simp add: Let_def)
qed

lemma cyclic_values: "map (\<lambda>j. xs ! ((j + s) mod length xs)) [0..<length xs] = rotate s xs"
  by (rule nth_equalityI) (simp_all add: nth_rotate add.commute)

lemma length_write_cyclic [simp]: "length (write_cyclic n s vs t off) = length t"
  by (induction vs arbitrary: t off) simp_all

lemma cyclic_pos_le:
  assumes "a \<le> b" "b < n" "(a + s) mod n = (b + s) mod n"
  shows "a = (b::nat)"
proof -
  from assms(1) have "a + s \<le> b + s" by simp
  then have "((b + s) mod n = (a + s) mod n) = (n dvd (b + s) - (a + s))"
    by (rule mod_eq_dvd_iff_nat)
  with assms(3) have "n dvd (b + s) - (a + s)"
    by metis
  then have "n dvd b - a" by simp
  moreover from assms have "b - a < n" by simp
  ultimately have "b - a = 0" using nat_dvd_not_less by blast
  with assms(1) show ?thesis by simp
qed

lemma cyclic_pos_inj:
  assumes "a < n" "b < n" "(a + s) mod n = (b + s) mod n"
  shows "a = (b::nat)"
proof (cases "a \<le> b")
  case True
  with assms show ?thesis by (intro cyclic_pos_le[of a b n s]) simp_all
next
  case False
  with assms have "b = a" by (intro cyclic_pos_le[of b a n s]) simp_all
  then show ?thesis by simp
qed

lemma write_cyclic_nth:
  assumes "length t = n" "off + length vs \<le> n"
  shows "(\<forall>k<length vs. write_cyclic n s vs t off ! ((off + k + s) mod n) = Some (vs ! k))
       \<and> (\<forall>p. (\<forall>k<length vs. p \<noteq> (off + k + s) mod n) \<longrightarrow> write_cyclic n s vs t off ! p = t ! p)"
  using assms
proof (induction vs arbitrary: t off)
  case Nil
  show ?case by simp
next
  case (Cons v vs)
  let ?t = "t[(off + s) mod n := Some v]"
  from Cons.prems have n: "0 < n" and len: "length ?t = n" and le: "Suc off + length vs \<le> n"
    by simp_all
  note IH = Cons.IH[OF len le]
  have pos: "(off + s) mod n < length t" using n Cons.prems by simp
  have first: "write_cyclic n s vs ?t (Suc off) ! ((off + s) mod n) = Some v"
  proof -
    have "\<forall>k<length vs. (off + s) mod n \<noteq> (Suc off + k + s) mod n"
    proof (intro allI impI notI)
      fix k assume "k < length vs" "(off + s) mod n = (Suc off + k + s) mod n"
      with le have "off = Suc off + k"
        by (intro cyclic_pos_inj[of off n "Suc off + k" s]) simp_all
      then show False by simp
    qed
    with IH have "write_cyclic n s vs ?t (Suc off) ! ((off + s) mod n) = ?t ! ((off + s) mod n)"
      by blast
    with pos show ?thesis by simp
  qed
  show ?case
  proof (intro conjI allI impI)
    fix k assume k: "k < length (v # vs)"
    show "write_cyclic n s (v # vs) t off ! ((off + k + s) mod n) = Some ((v # vs) ! k)"
    proof (cases k)
      case 0
      with first show ?thesis by simp
    next
      case (Suc k')
      with k IH show ?thesis by simp
    qed
  next
    fix p assume p: "\<forall>k<length (v # vs). p \<noteq> (off + k + s) mod n"
    then have "p \<noteq> (off + s) mod n" by force
    moreover from p have "\<forall>k<length vs. p \<noteq> (Suc off + k + s) mod n" by force
    ultimately show "write_cyclic n s (v # vs) t off ! p = t ! p"
      using IH by simp
  qed
qed


lemma cyclic_pos_cases:
  "k < n \<Longrightarrow> b \<le> n \<Longrightarrow> (b + k) mod n = (if b + k < n then b + k else b + k - (n::nat))"
  by (simp add: mod_if)

lemma getslice_setslice:
  assumes "start sl \<le> stop sl" "stop sl \<le> length seq" "length vals = stop sl - start sl"
  shows "getslice (setslice seq sl vals) sl = vals"
  using assms by (simp add: getslice_def setslice_def max_def)

lemma ox1_child0_nth:
  assumes "start sl \<le> stop sl" "stop sl \<le> length main_seq" "i < length main_seq"
  shows "setslice (replicate (length main_seq) None) sl (map Some (getslice main_seq sl)) ! i
           = (if start sl \<le> i \<and> i < stop sl then Some (main_seq ! i) else None)"
proof -
  have "length (map Some (getslice main_seq sl)) = stop sl - start sl"
    using assms by (simp add: length_getslice)
  with assms show ?thesis
    by (subst setslice_nth) (auto simp: getslice_nth)
qed

lemma ox1_with_write_cyclic:
  assumes "length main_seq = length secondary_seq" "0 < length main_seq"
    "start sl \<le> stop sl" "stop sl \<le> length main_seq"
  shows "ox1_with sl main_seq secondary_seq =
           Inr (write_cyclic (length main_seq) (stop sl) (ox1_kept sl main_seq secondary_seq)
                  (setslice (replicate (length main_seq) None) sl
                     (map Some (getslice main_seq sl))) 0)"
proof -
  let ?blank = "setslice (replicate (length main_seq) None) sl (map Some (getslice main_seq sl))"
  have len: "length (map Some (getslice main_seq sl)) = stop sl - start sl"
    using assms by (simp add: length_getslice)
  have l0: "length ?blank = length secondary_seq"
    using assms len by (simp add: length_setslice_same)
  have F: "getslice ?blank sl = map Some (getslice main_seq sl)"
    using assms len by (intro getslice_setslice) simp_all
  have "fill_missing_genes sl secondary_seq ?blank
      = Inr (write_cyclic (length secondary_seq) (stop sl)
           (filter (\<lambda>v. Some v \<notin> set (getslice ?blank sl)) (rotate (stop sl) secondary_seq))
           ?blank 0)"
    using assms(1,2) l0
    by (simp add: fill_missing_genes_def Let_def fill_loop_write_cyclic cyclic_values)
  also have "(\<lambda>v. Some v \<notin> set (getslice ?blank sl)) = (\<lambda>v. v \<notin> set (getslice main_seq sl))"
    by (auto simp: F)
  finally show ?thesis
    using assms(1) by (simp add: ox1_with_def Let_def ox1_kept_def)
qed

lemma distinct_getslice: "distinct seq \<Longrightarrow> distinct (getslice seq sl)"
  by (simp add: getslice_def)

lemma set_getslice_subset: "set (getslice seq sl) \<subseteq> set seq"
  unfolding getslice_def by (meson set_take_subset set_drop_subset subset_trans)

lemma length_ox1_kept:
  assumes "distinct main_seq" "distinct secondary_seq" "set main_seq = set secondary_seq"
    "start sl \<le> stop sl" "stop sl \<le> length main_seq"
  shows "length (ox1_kept sl main_seq secondary_seq) = length main_seq - (stop sl - start sl)"
proof -
  let ?S = "set (getslice main_seq sl)"
  have cS: "card ?S = stop sl - start sl"
    using assms by (simp add: distinct_card distinct_getslice length_getslice)
  have sub: "?S \<subseteq> set secondary_seq"
    using set_getslice_subset[of main_seq sl] assms(3) by simp
  have "length (ox1_kept sl main_seq secondary_seq) = card ({v. v \<notin> ?S} \<inter> set secondary_seq)"
    using assms(2) by (simp add: ox1_kept_def distinct_length_filter)
  also have "{v. v \<notin> ?S} \<inter> set secondary_seq = set secondary_seq - ?S" by auto
  also have "card (set secondary_seq - ?S) = card (set secondary_seq) - card ?S"
    using sub by (simp add: card_Diff_subset)
  also have "card (set secondary_seq) = length main_seq"
    using assms(1,3) by (metis distinct_card)
  finally show ?thesis using cS by simp
qed



lemma ox1_with_positions:
  assumes d1: "distinct main_seq" and d2: "distinct secondary_seq"
    and st: "set main_seq = set secondary_seq"
    and le: "start sl \<le> stop sl" "stop sl \<le> length main_seq"
    and pos: "0 < length main_seq"
  shows "\<exists>child. ox1_with sl main_seq secondary_seq = Inr child
           \<and> length child = length main_seq
           \<and> (\<forall>i. start sl \<le> i \<and> i < stop sl \<longrightarrow> child ! i = Some (main_seq ! i))
           \<and> (\<forall>k<length (ox1_kept sl main_seq secondary_seq).
                 child ! ((stop sl + k) mod length main_seq)
                   = Some (ox1_kept sl main_seq secondary_seq ! k))"
proof -
  let ?n = "length main_seq"
  let ?kept = "ox1_kept sl main_seq secondary_seq"
  let ?blank = "setslice (replicate ?n None) sl (map Some (getslice main_seq sl))"
  let ?child = "write_cyclic ?n (stop sl) ?kept ?blank 0"
  have eqlen: "length main_seq = length secondary_seq"
    using d1 d2 st by (metis distinct_card)
  have run: "ox1_with sl main_seq secondary_seq = Inr ?child"
    using eqlen pos le by (rule ox1_with_write_cyclic)
  have lk: "length ?kept = ?n - (stop sl - start sl)"
    using d1 d2 st le by (rule length_ox1_kept)
  have l0: "length ?blank = ?n"
    using le by (simp add: length_setslice_same length_getslice)
  have fit: "0 + length ?kept \<le> ?n" using lk by simp
  note W = write_cyclic_nth[where s = "stop sl", OF l0 fit]
  note W1 = W[THEN conjunct1, rule_format] and W2 = W[THEN conjunct2, rule_format]
  have filled: "\<forall>k<length ?kept. ?child ! ((stop sl + k) mod ?n) = Some (?kept ! k)"
  proof (intro allI impI)
    fix k assume "k < length ?kept"
    then have "?child ! ((0 + k + stop sl) mod ?n) = Some (?kept ! k)" by (rule W1)
    then show "?child ! ((stop sl + k) mod ?n) = Some (?kept ! k)" by (simp add: add.commute)
  qed
  have swath: "\<forall>i. start sl \<le> i \<and> i < stop sl \<longrightarrow> ?child ! i = Some (main_seq ! i)"
  proof (intro allI impI)
    fix i assume i: "start sl \<le> i \<and> i < stop sl"
    have "?child ! i = ?blank ! i"
    proof (rule W2)
      fix k assume k: "k < length ?kept"
      with lk have kn: "k < ?n" by simp
      from k lk i le have "stop sl + k < ?n \<or> stop sl + k - ?n < start sl" by linarith
      with i kn le(2) have "i \<noteq> (stop sl + k) mod ?n"
        by (auto simp: cyclic_pos_cases)
      then show "i \<noteq> (0 + k + stop sl) mod ?n" by (simp add: add.commute)
    qed
    also have "\<dots> = Some (main_seq ! i)"
      using i le by (simp add: ox1_child0_nth)
    finally show "?child ! i = Some (main_seq ! i)" .
  qed
  from run l0 swath filled show ?thesis by simp
qed

lemma ox1_with_permutation:
  assumes d1: "distinct main_seq" and d2: "distinct secondary_seq"
    and st: "set main_seq = set secondary_seq"
    and le: "start sl \<le> stop sl" "stop sl \<le> length main_seq"
    and pos: "0 < length main_seq"
  shows "\<exists>tour. ox1_with sl main_seq secondary_seq = Inr (map Some tour)
           \<and> length tour = length main_seq \<and> distinct tour \<and> set tour = set main_seq"
proof -
  let ?n = "length main_seq"
  let ?kept = "ox1_kept sl main_seq secondary_seq"
  from ox1_with_positions[OF assms] obtain child where
    run: "ox1_with sl main_seq secondary_seq = Inr child" and
    len: "length child = ?n" and
    sw: "\<And>i. start sl \<le> i \<Longrightarrow> i < stop sl \<Longrightarrow> child ! i = Some (main_seq ! i)" and
    fl: "\<And>k. k < length ?kept \<Longrightarrow> child ! ((stop sl + k) mod ?n) = Some (?kept ! k)"
    by blast
  have sub: "Some ` set main_seq \<subseteq> set child"
  proof
    fix x assume "x \<in> Some ` set main_seq"
    then obtain v where v: "x = Some v" "v \<in> set main_seq" by auto
    show "x \<in> set child"
    proof (cases "v \<in> set (getslice main_seq sl)")
      case True
      then obtain k where k: "k < length (getslice main_seq sl)" "getslice main_seq sl ! k = v"
        by (auto simp: in_set_conv_nth)
      with le have k': "k < stop sl - start sl" by (simp add: length_getslice)
      with k le have "main_seq ! (start sl + k) = v" by (simp add: getslice_nth)
      with sw[of "start sl + k"] k' have "child ! (start sl + k) = x" by (simp add: v)
      moreover from k' le len have "start sl + k < length child" by simp
      ultimately show ?thesis by (metis nth_mem)
    next
      case False
      with v st have "v \<in> set ?kept" by (simp add: ox1_kept_def)
      then obtain k where k: "k < length ?kept" "?kept ! k = v"
        by (auto simp: in_set_conv_nth)
      with fl[of k] have "child ! ((stop sl + k) mod ?n) = x" by (simp add: v)
      moreover from pos len have "(stop sl + k) mod ?n < length child" by simp
      ultimately show ?thesis by (metis nth_mem)
    qed
  qed
  have cS: "card (Some ` set main_seq) = ?n"
    using d1 by (simp add: card_image distinct_card)
  have "card (Some ` set main_seq) \<le> card (set child)"
    using sub by (intro card_mono) simp_all
  with cS len card_length[of child] have cc: "card (set child) = length child" by simp
  then have dc: "distinct child" by (rule card_distinct)
  have sc: "Some ` set main_seq = set child"
    using sub cS cc len by (intro card_subset_eq) simp_all
  let ?tour = "map the child"
  have "\<forall>x \<in> set child. Some (the x) = x"
  proof
    fix x assume "x \<in> set child"
    with sc have "x \<in> Some ` set main_seq" by simp
    then show "Some (the x) = x" by auto
  qed
  then have ch: "child = map Some ?tour"
    by (simp add: map_idI)
  have "distinct ?tour" using dc ch by (metis distinct_map)
  moreover have "set ?tour = set main_seq"
  proof -
    have "Some ` set ?tour = Some ` set main_seq" using sc ch by (metis set_map)
    then show ?thesis by (simp add: inj_image_eq_iff)
  qed
  moreover have "length ?tour = ?n" using len by simp
  ultimately show ?thesis using run ch by metis
qed


text \<open>
  Claim C4 (the child of OX1 for a fixed swath). For two tours over the same nodes, of
  length \<open>N\<close> at least 3, and a swath \<open>[start, stop)\<close> with
  \<open>start < stop \<le> N\<close> (every valid swath is one): the part of \<open>ox1\<close>
  that follows the choice of the swath returns one child, and every run of
  \<open>ox1\<close> on these parents whose swath selection returned this swath returns that
  child; the child has length \<open>N\<close>; its positions in \<open>[start, stop)\<close> hold the
  main parent's values at those positions; and the values of the secondary parent in
  cyclic order from index \<open>stop\<close>, without those of the swath, are
  \<open>N - (stop - start)\<close> values, of which number \<open>k\<close> stands at position
  \<open>(stop + k) mod N\<close> of the child.
\<close>

theorem ox1_child_determined:
  assumes "distinct main_seq" "distinct secondary_seq" "set main_seq = set secondary_seq"
    and "3 \<le> length main_seq"
    and "start swath < stop swath" "stop swath \<le> length main_seq"
  shows "\<exists>child. ox1_with swath main_seq secondary_seq = Inr child
           \<and> (\<forall>r c c'. get_valid_swath r (int (length main_seq)) c = Some (Inr swath, c')
                 \<longrightarrow> ox1 r main_seq secondary_seq c = Some (Inr child, c'))
           \<and> length child = length main_seq
           \<and> (\<forall>i. start swath \<le> i \<and> i < stop swath \<longrightarrow> child ! i = Some (main_seq ! i))
           \<and> length (ox1_kept swath main_seq secondary_seq)
                 = length main_seq - (stop swath - start swath)
           \<and> (\<forall>k<length main_seq - (stop swath - start swath).
                 child ! ((stop swath + k) mod length main_seq)
                   = Some (ox1_kept swath main_seq secondary_seq ! k))"
proof -
  have le: "start swath \<le> stop swath" and pos: "0 < length main_seq"
    using assms(4,5) by auto
  have eqlen: "length main_seq = length secondary_seq"
    using assms(1-3) by (metis distinct_card)
  have lk: "length (ox1_kept swath main_seq secondary_seq)
                 = length main_seq - (stop swath - start swath)"
    using assms(1-3) le assms(6) by (rule length_ox1_kept)
  from ox1_with_positions[OF assms(1-3) le assms(6) pos] obtain child where
    ch: "ox1_with swath main_seq secondary_seq = Inr child"
        "length child = length main_seq"
        "\<forall>i. start swath \<le> i \<and> i < stop swath \<longrightarrow> child ! i = Some (main_seq ! i)"
        "\<forall>k<length (ox1_kept swath main_seq secondary_seq).
                 child ! ((stop swath + k) mod length main_seq)
                   = Some (ox1_kept swath main_seq secondary_seq ! k)"
    by blast
  have "\<forall>r c c'. get_valid_swath r (int (length main_seq)) c = Some (Inr swath, c')
                 \<longrightarrow> ox1 r main_seq secondary_seq c = Some (Inr child, c')"
    using eqlen ch(1) by (simp add: ox1_def)
  with ch lk show ?thesis by simp
qed

theorem ox1_child_determined_witness:
  "distinct [1, 2, 3, 4, 5 :: nat] \<and> distinct [5, 4, 3, 2, 1 :: nat]
   \<and> set [1, 2, 3, 4, 5 :: nat] = set [5, 4, 3, 2, 1]
   \<and> 3 \<le> length [1, 2, 3, 4, 5 :: nat]
   \<and> start \<lparr>start = 1, stop = 3\<rparr> < stop \<lparr>start = 1, stop = 3\<rparr>
   \<and> stop \<lparr>start = 1, stop = 3\<rparr> \<le> length [1, 2, 3, 4, 5 :: nat]
   \<and> ox1_kept \<lparr>start = 1, stop = 3\<rparr> [1, 2, 3, 4, 5 :: nat] [5, 4, 3, 2, 1] = [1, 5, 4]
   \<and> ox1_with \<lparr>start = 1, stop = 3\<rparr> [1, 2, 3, 4, 5 :: nat] [5, 4, 3, 2, 1]
       = Inr [Some 4, Some 2, Some 3, Some 1, Some 5]"
proof -
  let ?m = "[1, 2, 3, 4, 5 :: nat]" and ?s = "[5, 4, 3, 2, 1 :: nat]"
  let ?sw = "\<lparr>start = 1, stop = 3\<rparr>"
  have h: "distinct ?m" "distinct ?s" "set ?m = set ?s" "3 \<le> length ?m"
      "start ?sw < stop ?sw" "stop ?sw \<le> length ?m"
    by auto
  have kept: "ox1_kept ?sw ?m ?s = [1, 5, 4]"
    by (simp add: ox1_kept_def getslice_def rotate_def eval_nat_numeral)
  from ox1_child_determined[OF h] obtain child where
    ch: "ox1_with ?sw ?m ?s = Inr child" by blast
  have "ox1_with ?sw ?m ?s = Inr [Some 4, Some 2, Some 3, Some 1, Some 5]"
    by (simp add: ox1_with_def fill_missing_genes_def getslice_def setslice_def Let_def
        upt_rec[of 0] upt_rec[of 1] upt_rec[of 2] upt_rec[of 3] upt_rec[of 4] upt_rec[of 5])
  with h kept ch show ?thesis by simp
qed


section \<open>Properties of the greedy constructor\<close>

lemma min_from_mem: "min_from key best xs \<in> set (best # xs)"
  by (induction xs arbitrary: best) auto

lemma py_min_mem: "xs \<noteq> [] \<Longrightarrow> \<exists>x. py_min key xs = Inr x \<and> x \<in> set xs"
  using min_from_mem[of key "hd xs" "tl xs"]
  by (cases xs) (auto simp: py_min_def)

lemma enumerates_set: "enumerates order \<Longrightarrow> distinct xs \<Longrightarrow> set (order xs) = set xs"
  by (simp add: enumerates_def)

lemma greedy_loop_permutation:
  "enumerates order \<Longrightarrow> distinct (tour @ available_nodes) \<Longrightarrow>
         \<exists>t. greedy_loop order g prev_node available_nodes tour = Inr t
            \<and> distinct t \<and> set t = set tour \<union> set available_nodes
            \<and> length t = length tour + length available_nodes"
proof (induction order g prev_node available_nodes tour rule: greedy_loop.induct)
  case (1 order g prev_node available_nodes tour)
  note IH = "1.IH" and en = "1.prems"(1) and d = "1.prems"(2)
  show ?case
  proof (cases "available_nodes = []")
    case True
    with d show ?thesis by simp
  next
    case False
    from d have da: "distinct available_nodes" by simp
    from enumerates_set[OF en da] False have "order available_nodes \<noteq> []" by auto
    from py_min_mem[OF this, of "\<lambda>x. distance g prev_node x"] obtain x where
      x: "py_min (\<lambda>x. distance g prev_node x) (order available_nodes) = Inr x"
         "x \<in> set (order available_nodes)"
      by blast
    with enumerates_set[OF en da] have xin: "x \<in> set available_nodes" by simp
    have d': "distinct ((tour @ [x]) @ remove1 x available_nodes)"
      using d xin by (auto simp: distinct_remove1)
    from xin have nn: "\<not> x \<notin> set available_nodes" by simp
    from IH[OF False x(1) nn en d'] obtain t where
      t: "greedy_loop order g x (remove1 x available_nodes) (tour @ [x]) = Inr t"
         "distinct t" "set t = set (tour @ [x]) \<union> set (remove1 x available_nodes)"
         "length t = length (tour @ [x]) + length (remove1 x available_nodes)"
      by blast
    have "greedy_loop order g prev_node available_nodes tour = Inr t"
      using False x(1) xin t(1) by (subst greedy_loop.simps) simp
    moreover have "set t = set tour \<union> set available_nodes"
      using t(3) xin da by (auto simp: set_remove1_eq)
    moreover have "length t = length tour + length available_nodes"
      using t(4) xin by (simp add: length_remove1) (metis Suc_pred length_pos_if_in_set)
    ultimately show ?thesis using t(2) by blast
  qed
qed

lemma greedy_permutation:
  assumes "enumerates order" "nodes g \<noteq> []"
  shows "\<exists>t. greedy order g = Inr t \<and> is_tour g t"
proof -
  let ?av = "remdups (nodes g)"
  have da: "distinct ?av" by simp
  from assms(2) have ne: "?av \<noteq> []" by simp
  from enumerates_set[OF assms(1) da] ne obtain p rest where
    p: "order ?av = p # rest" "p \<in> set ?av"
    by (cases "order ?av") auto
  have d: "distinct ([p] @ remove1 p ?av)" by (simp add: distinct_remove1)
  from greedy_loop_permutation[OF assms(1) d, of g p] obtain t where
    t: "greedy_loop order g p (remove1 p ?av) [p] = Inr t" "distinct t"
       "set t = set [p] \<union> set (remove1 p ?av)" "length t = length [p] + length (remove1 p ?av)"
    by blast
  have "greedy order g = Inr t" using p(1) t(1) by (simp add: greedy_def)
  moreover have st: "set t = set (nodes g)" using t(3) p(2) da by (auto simp: set_remove1_eq)
  moreover have "length t = card (set (nodes g))"
    using t(2) st by (metis distinct_card)
  ultimately show ?thesis using t(2) by (simp add: is_tour_def)
qed


section \<open>The permutation invariant\<close>

lemma is_tour_length: "is_tour g t \<Longrightarrow> length t = card (set (nodes g))"
  by (simp add: is_tour_def)

lemma is_tour_mset: "is_tour g t \<Longrightarrow> mset t' = mset t \<Longrightarrow> is_tour g t'"
  unfolding is_tour_def
  by (metis mset_eq_length mset_eq_imp_distinct_iff mset_eq_setD)

lemma sim_tour:
  assumes "is_tour g t" "3 \<le> card (set (nodes g))"
    "valid_cuts r (int (card (set (nodes g))))"
  shows "if swath_reachable r (int (card (set (nodes g)))) c
         then \<exists>t' c'. sim r t c = Some (Inr (), t', c') \<and> c < c' \<and> is_tour g t'
         else sim r t c = None"
proof -
  let ?N = "card (set (nodes g))"
  have len: "length t = ?N" using assms(1) by (rule is_tour_length)
  have n: "2 < int (length t)" using assms(2) len by simp
  show ?thesis
  proof (cases "swath_reachable r (int ?N) c")
    case False
    with n len have "sim r t c = None"
      by (simp add: sim_def get_valid_swath_diverges)
    with False show ?thesis by simp
  next
    case True
    with len have "swath_reachable r (int (length t)) c" by simp
    from get_valid_swath_returns[OF n this] obtain swath c' where
      sw: "get_valid_swath r (int (length t)) c = Some (Inr swath, c')" "c < c'"
      by blast
    from assms(3) len have "valid_cuts r (int (length t))" by simp
    from get_valid_swath_bounds[OF n this sw(1)] have b: "start swath \<le> stop swath" by simp
    let ?t' = "setslice t swath (rev (getslice t swath))"
    have "sim r t c = Some (Inr (), ?t', c')" using n sw(1) by (simp add: sim_def)
    moreover have "is_tour g ?t'"
      using assms(1) mset_setslice_rev[OF b] by (rule is_tour_mset)
    ultimately show ?thesis using True sw(2) by auto
  qed
qed

lemma ox1_tour:
  assumes "is_tour g p" "is_tour g s" "3 \<le> card (set (nodes g))"
    "valid_cuts r (int (card (set (nodes g))))"
  shows "if swath_reachable r (int (card (set (nodes g)))) c
         then \<exists>child c'. ox1 r p s c = Some (Inr (map Some child), c') \<and> c < c'
                \<and> is_tour g child
         else ox1 r p s c = None"
proof -
  let ?N = "card (set (nodes g))"
  have len: "length p = ?N" "length s = ?N"
    using assms(1,2) by (simp_all add: is_tour_length)
  have n: "2 < int (length p)" using assms(3) len by simp
  show ?thesis
  proof (cases "swath_reachable r (int ?N) c")
    case False
    with n len have "ox1 r p s c = None"
      by (simp add: ox1_def get_valid_swath_diverges)
    with False show ?thesis by simp
  next
    case True
    with len have "swath_reachable r (int (length p)) c" by simp
    from get_valid_swath_returns[OF n this] obtain swath c' where
      sw: "get_valid_swath r (int (length p)) c = Some (Inr swath, c')" "c < c'"
      by blast
    from assms(4) len have "valid_cuts r (int (length p))" by simp
    from get_valid_swath_bounds[OF n this sw(1)]
    have b: "start swath \<le> stop swath" "stop swath \<le> length p" by simp_all
    have d: "distinct p" "distinct s" "set p = set s"
      using assms(1,2) by (simp_all add: is_tour_def)
    have pos: "0 < length p" using n by auto
    from ox1_with_permutation[OF d b pos] obtain child where
      ch: "ox1_with swath p s = Inr (map Some child)" "length child = length p"
          "distinct child" "set child = set p"
      by blast
    have "ox1 r p s c = Some (Inr (map Some child), c')"
      using len sw(1) ch(1) by (simp add: ox1_def)
    moreover have "is_tour g child"
      using ch(2-4) assms(1) by (simp add: is_tour_def)
    ultimately show ?thesis using True sw(2) by auto
  qed
qed


text \<open>
  Claim C1 (permutation invariant). For a graph with at least 3 nodes, an enumeration
  order of sets and a sampler that keep their contracts: the greedy constructor returns
  a permutation of the node set (as long as the node set, without repetition, with the
  same elements); \<open>ox1\<close> applied to two permutations of the node set returns, on
  every run in which the swath selection returns, a child without \<open>None\<close> that is
  a permutation of the node set; and \<open>sim\<close> applied to a permutation of the node
  set leaves, on every such run, a permutation of the node set. On the other runs
  \<open>ox1\<close> and \<open>sim\<close> do not return, so they produce no tour.
\<close>

theorem tours_stay_permutations:
  assumes "3 \<le> card (set (nodes g))" "enumerates order"
    "valid_cuts r (int (card (set (nodes g))))"
  shows "(\<exists>t. greedy order g = Inr t \<and> is_tour g t)
     \<and> (\<forall>p s. is_tour g p \<and> is_tour g s \<longrightarrow>
           (if swath_reachable r (int (card (set (nodes g)))) c
            then \<exists>child c'. ox1 r p s c = Some (Inr (map Some child), c') \<and> is_tour g child
            else ox1 r p s c = None))
     \<and> (\<forall>t. is_tour g t \<longrightarrow>
           (if swath_reachable r (int (card (set (nodes g)))) c
            then \<exists>t' c'. sim r t c = Some (Inr (), t', c') \<and> is_tour g t'
            else sim r t c = None))"
proof (intro conjI allI impI)
  from assms(1) have "nodes g \<noteq> []" by auto
  with assms(2) show "\<exists>t. greedy order g = Inr t \<and> is_tour g t"
    by (rule greedy_permutation)
next
  fix p s assume "is_tour g p \<and> is_tour g s"
  then have "is_tour g p" "is_tour g s" by simp_all
  from ox1_tour[OF this assms(1,3), of c]
  show "if swath_reachable r (int (card (set (nodes g)))) c
            then \<exists>child c'. ox1 r p s c = Some (Inr (map Some child), c') \<and> is_tour g child
            else ox1 r p s c = None"
    by (auto split: if_splits)
next
  fix t assume "is_tour g t"
  from sim_tour[OF this assms(1,3), of c]
  show "if swath_reachable r (int (card (set (nodes g)))) c
            then \<exists>t' c'. sim r t c = Some (Inr (), t', c') \<and> is_tour g t'
            else sim r t c = None"
    by (auto split: if_splits)
qed


theorem tours_stay_permutations_witness:
  "3 \<le> card (set (nodes line_graph)) \<and> enumerates (\<lambda>xs. xs)
   \<and> valid_cuts (draws_from [(3, 1)] (0, 2)) (int (card (set (nodes line_graph))))
   \<and> swath_reachable (draws_from [(3, 1)] (0, 2)) (int (card (set (nodes line_graph)))) 0
   \<and> greedy (\<lambda>xs. xs) line_graph = Inr [0, 2, 3, 1] \<and> is_tour line_graph [0, 2, 3, 1]
   \<and> is_tour line_graph [3, 1, 2, 0]
   \<and> ox1 (draws_from [(3, 1)] (0, 2)) [0, 2, 3, 1 :: nat] [3, 1, 2, 0] 0
       = Some (Inr (map Some [1, 2, 3, 0]), 1)
   \<and> is_tour line_graph [1, 2, 3, 0]
   \<and> sim (draws_from [(3, 1)] (0, 2)) [0, 2, 3, 1 :: nat] 0 = Some (Inr (), [0, 3, 2, 1], 1)
   \<and> is_tour line_graph [0, 3, 2, 1]"
proof -
  let ?r = "draws_from [(3, 1)] (0, 2)"
  have card: "card (set (nodes line_graph)) = 4" by (simp add: line_graph_def)
  have 1: "3 \<le> card (set (nodes line_graph))" by (simp add: card)
  have 2: "enumerates (\<lambda>xs. xs)" by (simp add: enumerates_def)
  have 3: "valid_cuts ?r (int (card (set (nodes line_graph))))"
    unfolding card by (rule draws_from_valid) simp
  have 4: "swath_reachable ?r (int (card (set (nodes line_graph)))) 0"
    by (rule draws_from_reachable) (simp_all add: too_short_def covers_all_def card)
  note T = tours_stay_permutations[OF 1 2 3, of 0]
  have g: "greedy (\<lambda>xs. xs) line_graph = Inr [0, 2, 3, 1]"
    by (simp add: greedy_def line_graph_def py_min_def)
  with T have tg: "is_tour line_graph [0, 2, 3, 1]" by auto
  have ts: "is_tour line_graph [3, 1, 2, 0]"
    by (simp add: is_tour_def line_graph_def) auto
  have o: "ox1 ?r [0, 2, 3, 1 :: nat] [3, 1, 2, 0] 0 = Some (Inr (map Some [1, 2, 3, 0]), 1)"
    by (simp add: ox1_def get_valid_swath_def random_slice_def resample_short.simps
        resample_full.simps draws_from_def ox1_with_def fill_missing_genes_def getslice_def
        setslice_def Let_def upt_rec[of 0] upt_rec[of 1] upt_rec[of 2] upt_rec[of 3]
        upt_rec[of 4])
  from T tg ts 4 have "\<exists>child c'. ox1 ?r [0, 2, 3, 1 :: nat] [3, 1, 2, 0] 0
       = Some (Inr (map Some child), c') \<and> is_tour line_graph child"
    by simp
  with o have to: "is_tour line_graph [1, 2, 3, 0]"
    by (auto simp: map_eq_Cons_conv)
  have s: "sim ?r [0, 2, 3, 1 :: nat] 0 = Some (Inr (), [0, 3, 2, 1], 1)"
    by (simp add: sim_def get_valid_swath_def random_slice_def resample_short.simps
        resample_full.simps draws_from_def setslice_def getslice_def)
  from T tg 4 have "\<exists>t' c'. sim ?r [0, 2, 3, 1 :: nat] 0 = Some (Inr (), t', c') \<and> is_tour line_graph t'"
    by simp
  with s have tm: "is_tour line_graph [0, 3, 2, 1]" by auto
  from 1 2 3 4 g tg ts o to s tm show ?thesis by blast
qed


section \<open>Properties of the population update\<close>

lemma mset_move_hole:
  assumes "i < length xs" "j < length xs" "i \<noteq> j"
  shows "mset (xs[i := xs ! j, j := y]) = mset (xs[i := y])"
proof -
  let ?ys = "xs[i := y]"
  have "?ys[i := ?ys ! j, j := ?ys ! i] = xs[i := xs ! j, j := y]"
    using assms by (simp add: list_update_swap)
  moreover have "mset (?ys[i := ?ys ! j, j := ?ys ! i]) = mset ?ys"
    using assms by (intro mset_swap) simp_all
  ultimately show ?thesis by simp
qed

lemma siftdown_loop_hole:
  "pos < length heap \<Longrightarrow>
   (case siftdown_loop newitem startpos heap pos of
      (heap', pos') \<Rightarrow> pos' < length heap' \<and> length heap' = length heap
        \<and> (\<forall>y. mset (heap'[pos' := y]) = mset (heap[pos := y])))"
proof (induction newitem startpos heap pos rule: siftdown_loop.induct)
  case (1 newitem startpos heap pos)
  show ?case
  proof (cases "pos > startpos \<and> newitem < heap ! ((pos - 1) div 2)")
    case False
    then have "siftdown_loop newitem startpos heap pos = (heap, pos)"
      by (subst siftdown_loop.simps) auto
    with 1(2) show ?thesis by simp
  next
    case True
    let ?par = "(pos - 1) div 2"
    let ?h = "heap[pos := heap ! ?par]"
    from True 1(2) have par: "?par < pos" "?par < length ?h" by auto
    from 1(1)[OF _ _ par(2)] True
    obtain heap' pos' where r: "siftdown_loop newitem startpos ?h ?par = (heap', pos')"
      "pos' < length heap'" "length heap' = length ?h"
      "\<forall>y. mset (heap'[pos' := y]) = mset (?h[?par := y])"
      by (cases "siftdown_loop newitem startpos ?h ?par") auto
    have "\<forall>y. mset (?h[?par := y]) = mset (heap[pos := y])"
      using mset_move_hole[of pos heap ?par] par 1(2) by simp
    moreover have "siftdown_loop newitem startpos heap pos = siftdown_loop newitem startpos ?h ?par"
      using True by (subst siftdown_loop.simps) simp
    ultimately show ?thesis using r by simp
  qed
qed

lemma mset_siftdown:
  assumes "pos < length heap"
  shows "mset (siftdown heap startpos pos) = mset heap"
  using siftdown_loop_hole[OF assms, of "heap ! pos" startpos]
  by (auto simp: siftdown_def Let_def split: prod.splits)

lemma siftup_loop_hole:
  "pos < length heap \<Longrightarrow>
   (case siftup_loop heap pos of
      (heap', pos') \<Rightarrow> pos' < length heap' \<and> length heap' = length heap
        \<and> (\<forall>y. mset (heap'[pos' := y]) = mset (heap[pos := y])))"
proof (induction heap pos rule: siftup_loop.induct)
  case (1 heap pos)
  show ?case
  proof (cases "2 * pos + 1 < length heap")
    case False
    then have "siftup_loop heap pos = (heap, pos)"
      by (subst siftup_loop.simps) auto
    with 1(3) show ?thesis by simp
  next
    case True
    let ?c = "if 2 * pos + 2 < length heap \<and> \<not> heap ! (2 * pos + 1) < heap ! (2 * pos + 2)
              then 2 * pos + 2 else 2 * pos + 1"
    let ?h = "heap[pos := heap ! ?c]"
    from True have c: "?c < length ?h" "pos \<noteq> ?c" by auto
    have step: "siftup_loop heap pos = siftup_loop ?h ?c"
      using True by (subst siftup_loop.simps) simp
    have "case siftup_loop ?h ?c of
      (heap', pos') \<Rightarrow> pos' < length heap' \<and> length heap' = length ?h
        \<and> (\<forall>y. mset (heap'[pos' := y]) = mset (?h[?c := y]))"
      using 1(1,2) True c(1) by (auto split: if_splits)
    moreover have "\<forall>y. mset (?h[?c := y]) = mset (heap[pos := y])"
      using mset_move_hole[of pos heap ?c] c 1(3) by simp
    ultimately show ?thesis unfolding step by (auto split: prod.splits)
  qed
qed

lemma mset_siftup:
  assumes "pos < length heap"
  shows "mset (siftup heap pos) = mset heap"
proof -
  obtain heap' pos' where r: "siftup_loop heap pos = (heap', pos')"
    by (cases "siftup_loop heap pos")
  with siftup_loop_hole[OF assms] have
    h: "pos' < length heap'" "mset (heap'[pos' := heap ! pos]) = mset (heap[pos := heap ! pos])"
    by auto
  from h(1) have "mset (siftdown (heap'[pos' := heap ! pos]) pos pos') = mset (heap'[pos' := heap ! pos])"
    by (intro mset_siftdown) simp
  with r h(2) show ?thesis by (simp add: siftup_def)
qed

lemma heappushpop_replaces_root:
  assumes "heap \<noteq> []" "heap ! 0 < item"
  shows "fst (heappushpop heap item) = heap ! 0"
    and "mset (snd (heappushpop heap item)) = mset heap - {#heap ! 0#} + {#item#}"
proof -
  from assms show "fst (heappushpop heap item) = heap ! 0" by (simp add: heappushpop_def)
  have "mset (siftup (heap[0 := item]) 0) = mset (heap[0 := item])"
    using assms(1) by (intro mset_siftup) simp
  also have "\<dots> = mset heap - {#heap ! 0#} + {#item#}"
    using assms(1) by (simp add: mset_update)
  finally show "mset (snd (heappushpop heap item)) = mset heap - {#heap ! 0#} + {#item#}"
    using assms by (simp add: heappushpop_def)
qed

lemma update_population_cases:
  assumes "population \<noteq> []"
  shows "\<exists>population'. update_population item population = Inr population'
           \<and> (if fst item > fst (population ! 0)
               then mset population' = mset population - {#population ! 0#} + {#item#}
               else population' = population)"
proof (cases "fst item > fst (population ! 0)")
  case False
  with assms show ?thesis by (simp add: update_population_def)
next
  case True
  then have "population ! 0 < item" by (simp add: less_prod_def)
  from heappushpop_replaces_root(2)[OF assms this] True assms
  show ?thesis by (simp add: update_population_def)
qed

lemma fitness_heap_root:
  assumes "fitness_heap population"
  shows "i < length population \<Longrightarrow> fst (population ! 0) \<le> fst (population ! i)"
proof (induction i rule: less_induct)
  case (less i)
  show ?case
  proof (cases "i = 0")
    case True
    then show ?thesis by simp
  next
    case False
    then have par: "(i - 1) div 2 < i" by auto
    with less.prems have "(i - 1) div 2 < length population" by simp
    from less.IH[OF par this] have "fst (population ! 0) \<le> fst (population ! ((i - 1) div 2))" .
    also from assms less.prems False have "\<dots> \<le> fst (population ! i)"
      by (simp add: fitness_heap_def)
    finally show ?thesis .
  qed
qed


lemma fitness_heap_Min:
  assumes "population \<noteq> []" "fitness_heap population"
  shows "fst (population ! 0) = Min (fst ` set population)"
proof -
  have "\<forall>m \<in> set population. fst (population ! 0) \<le> fst m"
    using fitness_heap_root[OF assms(2)] by (metis in_set_conv_nth)
  moreover have "population ! 0 \<in> set population" using assms(1) by simp
  ultimately show ?thesis by (intro Min_eqI[symmetric]) auto
qed

lemma replaced_length:
  assumes "population \<noteq> []"
    "mset population' = mset population - {#population ! 0#} + {#item#}"
  shows "length population' = length population"
proof -
  have "population ! 0 \<in># mset population" using assms(1) by simp
  then have "size (mset population - {#population ! 0#} + {#item#}) = size (mset population)"
    by (simp add: size_Diff_singleton)
       (metis Suc_pred assms(1) length_greater_0_conv)
  with assms(2) show ?thesis by (metis size_mset)
qed

lemma replaced_members:
  assumes "mset population' = mset population - {#population ! 0#} + {#item#}"
  shows "item \<in> set population'"
    and "set population' \<subseteq> insert item (set population)"
    and "\<And>m. m \<in> set population \<Longrightarrow> m \<noteq> population ! 0 \<Longrightarrow> m \<in> set population'"
proof -
  have s: "set population' = set_mset (mset population - {#population ! 0#} + {#item#})"
    using assms by (metis set_mset_mset)
  show "item \<in> set population'" unfolding s by simp
  show "set population' \<subseteq> insert item (set population)"
    unfolding s by (auto dest: in_diffD)
  show "\<And>m. m \<in> set population \<Longrightarrow> m \<noteq> population ! 0 \<Longrightarrow> m \<in> set population'"
    unfolding s by (simp add: in_diff_count)
qed

lemma small_population_heap: "small_population \<noteq> [] \<and> fitness_heap small_population"
  by (auto simp: small_population_def fitness_heap_def less_Suc_eq numeral_3_eq_3)

text \<open>
  Claim C3 (replace the worst member or discard the candidate). For a non-empty
  population that is a min-heap on fitness, the member at the root has the minimum
  fitness, and \<open>update_population\<close> returns without raising: when the candidate's
  fitness is strictly greater than that minimum, the population afterwards is the old
  one with one occurrence of the root member removed and the candidate added, of the
  same size; otherwise the population is the same list as before.
\<close>

theorem update_population_replaces_worst:
  assumes "population \<noteq> []" "fitness_heap population"
  shows "fst (population ! 0) = Min (fst ` set population)
     \<and> (\<exists>population'. update_population item population = Inr population'
          \<and> (if fst item > Min (fst ` set population)
              then mset population' = mset population - {#population ! 0#} + {#item#}
                   \<and> length population' = length population
              else population' = population))"
proof -
  have root: "fst (population ! 0) = Min (fst ` set population)"
    using assms by (rule fitness_heap_Min)
  from update_population_cases[OF assms(1), of item] obtain population' where
    p: "update_population item population = Inr population'"
       "if fst item > fst (population ! 0)
        then mset population' = mset population - {#population ! 0#} + {#item#}
        else population' = population"
    by blast
  from p(2) assms(1) have "if fst item > fst (population ! 0)
        then mset population' = mset population - {#population ! 0#} + {#item#}
             \<and> length population' = length population
        else population' = population"
    by (auto simp: replaced_length split: if_splits)
  with p(1) root show ?thesis by simp
qed

theorem update_population_replaces_worst_witness:
  "small_population \<noteq> [] \<and> fitness_heap small_population
   \<and> fst (small_population ! 0) = - 10
   \<and> update_population (- 7, [2, 1, 0]) small_population
       = Inr [(- 9, [1, 0, 2]), (- 8, [0, 2, 1]), (- 7, [2, 1, 0])]
   \<and> update_population (- 11, [2, 1, 0]) small_population = Inr small_population"
proof -
  have h: "small_population \<noteq> []" "fitness_heap small_population"
    using small_population_heap by simp_all
  from update_population_replaces_worst[OF h, of "(- 7, [2, 1, 0])"]
  have "fst (small_population ! 0) = Min (fst ` set small_population)" by simp
  then have r: "fst (small_population ! 0) = - 10" by (simp add: small_population_def)
  have u: "update_population (- 7, [2, 1, 0]) small_population
       = Inr [(- 9, [1, 0, 2]), (- 8, [0, 2, 1]), (- 7, [2, 1, 0])]"
    by (simp add: update_population_def heappushpop_def siftup_def siftdown_def
        siftup_loop.simps siftdown_loop.simps small_population_def less_prod_def)
  have v: "update_population (- 11, [2, 1, 0]) small_population = Inr small_population"
    by (simp add: update_population_def small_population_def)
  from h r u v show ?thesis by simp
qed


text \<open>
  Claim C5 (the worst fitness never decreases). For every non-empty population and
  every candidate, \<open>update_population\<close> returns a non-empty population whose
  minimum fitness is at least the minimum fitness before the call; and when the
  population was a min-heap on fitness, the fitness of the member at the root after the
  call is at least the fitness of the member at the root before it.
\<close>

theorem worst_fitness_never_decreases:
  assumes "population \<noteq> []"
  shows "\<exists>population'. update_population item population = Inr population'
           \<and> population' \<noteq> []
           \<and> Min (fst ` set population) \<le> Min (fst ` set population')
           \<and> (fitness_heap population \<longrightarrow> fst (population ! 0) \<le> fst (population' ! 0))"
proof -
  from update_population_cases[OF assms(1), of item] obtain population' where
    p: "update_population item population = Inr population'"
       "if fst item > fst (population ! 0)
        then mset population' = mset population - {#population ! 0#} + {#item#}
        else population' = population"
    by blast
  have r0: "population ! 0 \<in> set population" using assms by simp
  have ne: "population' \<noteq> []"
    using p(2) assms replaced_members(1)[of population' population item]
    by (auto split: if_splits)
  have ge: "\<forall>m \<in> set population'. Min (fst ` set population) \<le> fst m"
  proof
    fix m assume m: "m \<in> set population'"
    show "Min (fst ` set population) \<le> fst m"
    proof (cases "fst item > fst (population ! 0)")
      case False
      with p(2) m show ?thesis by simp
    next
      case True
      with p(2) have "set population' \<subseteq> insert item (set population)"
        by (simp add: replaced_members(2))
      with m have "m = item \<or> m \<in> set population" by auto
      then show ?thesis
      proof
        assume "m = item"
        moreover have "Min (fst ` set population) \<le> fst (population ! 0)"
          using r0 by simp
        ultimately show ?thesis using True by simp
      next
        assume "m \<in> set population"
        then show ?thesis by simp
      qed
    qed
  qed
  then have min: "Min (fst ` set population) \<le> Min (fst ` set population')"
    using ne by simp
  have "fitness_heap population \<longrightarrow> fst (population ! 0) \<le> fst (population' ! 0)"
  proof
    assume "fitness_heap population"
    with assms have "fst (population ! 0) = Min (fst ` set population)"
      by (rule fitness_heap_Min)
    moreover have "population' ! 0 \<in> set population'" using ne by simp
    ultimately show "fst (population ! 0) \<le> fst (population' ! 0)" using ge by simp
  qed
  with p(1) ne min show ?thesis by blast
qed

theorem worst_fitness_never_decreases_witness:
  "small_population \<noteq> [] \<and> fitness_heap small_population
   \<and> update_population (- 8, [2, 0, 1]) small_population
       = Inr [(- 9, [1, 0, 2]), (- 8, [0, 2, 1]), (- 8, [2, 0, 1])]
   \<and> Min (fst ` set small_population)
       \<le> Min (fst ` set [(- 9, [1, 0, 2]), (- 8, [0, 2, 1]), (- 8, [2 :: nat, 0, 1])])
   \<and> fst (small_population ! 0)
       \<le> fst ([(- 9, [1, 0, 2]), (- 8, [0, 2, 1]), (- 8, [2 :: nat, 0, 1])] ! 0)"
proof -
  have h: "small_population \<noteq> []" and hp: "fitness_heap small_population"
    using small_population_heap by simp_all
  have u: "update_population (- 8, [2, 0, 1]) small_population
       = Inr [(- 9, [1, 0, 2]), (- 8, [0, 2, 1]), (- 8, [2, 0, 1])]"
    by (simp add: update_population_def heappushpop_def siftup_def siftdown_def
        siftup_loop.simps siftdown_loop.simps small_population_def less_prod_def)
  with worst_fitness_never_decreases[OF h, of "(- 8, [2, 0, 1])"] hp
  have "Min (fst ` set small_population)
       \<le> Min (fst ` set [(- 9, [1, 0, 2]), (- 8, [0, 2, 1]), (- 8, [2 :: nat, 0, 1])])"
    and "fst (small_population ! 0)
       \<le> fst ([(- 9, [1, 0, 2]), (- 8, [0, 2, 1]), (- 8, [2 :: nat, 0, 1])] ! 0)"
    by simp_all
  with h hp u show ?thesis by simp
qed

text \<open>
  Claim C10 (the best fitness never decreases). For every non-empty population and
  every candidate, \<open>update_population\<close> returns a non-empty population in which
  every former member is still present, except that the member at the root may have
  given way to a candidate of strictly greater fitness; so the maximum fitness in the
  population after the call is at least the maximum fitness before it.
\<close>

theorem best_fitness_never_decreases:
  assumes "population \<noteq> []"
  shows "\<exists>population'. update_population item population = Inr population'
           \<and> population' \<noteq> []
           \<and> (\<forall>m \<in> set population. m \<in> set population'
                 \<or> (m = population ! 0 \<and> fst m < fst item \<and> item \<in> set population'))
           \<and> Max (fst ` set population) \<le> Max (fst ` set population')"
proof -
  from update_population_cases[OF assms(1), of item] obtain population' where
    p: "update_population item population = Inr population'"
       "if fst item > fst (population ! 0)
        then mset population' = mset population - {#population ! 0#} + {#item#}
        else population' = population"
    by blast
  have kept: "\<forall>m \<in> set population. m \<in> set population'
                 \<or> (m = population ! 0 \<and> fst m < fst item \<and> item \<in> set population')"
  proof
    fix m assume m: "m \<in> set population"
    show "m \<in> set population'
            \<or> (m = population ! 0 \<and> fst m < fst item \<and> item \<in> set population')"
    proof (cases "fst item > fst (population ! 0)")
      case False
      with p(2) m show ?thesis by simp
    next
      case True
      with p(2) have ms: "mset population' = mset population - {#population ! 0#} + {#item#}"
        by simp
      show ?thesis
      proof (cases "m = population ! 0")
        case True
        with \<open>fst item > fst (population ! 0)\<close> replaced_members(1)[OF ms] show ?thesis by simp
      next
        case False
        with m replaced_members(3)[OF ms] show ?thesis by simp
      qed
    qed
  qed
  have ne: "population' \<noteq> []" using kept assms by (cases population) auto
  have "\<forall>m \<in> set population. fst m \<le> Max (fst ` set population')"
  proof
    fix m assume "m \<in> set population"
    with kept have "m \<in> set population' \<or> (fst m < fst item \<and> item \<in> set population')"
      by blast
    then show "fst m \<le> Max (fst ` set population')"
    proof
      assume "m \<in> set population'"
      then show ?thesis by simp
    next
      assume a: "fst m < fst item \<and> item \<in> set population'"
      then have "fst item \<le> Max (fst ` set population')" by simp
      with a show ?thesis by linarith
    qed
  qed
  then have "Max (fst ` set population) \<le> Max (fst ` set population')"
    using assms by simp
  with p(1) ne kept show ?thesis by blast
qed


theorem best_fitness_never_decreases_witness:
  "small_population \<noteq> []
   \<and> update_population (- 5, [1, 2, 0]) small_population
       = Inr [(- 9, [1, 0, 2]), (- 8, [0, 2, 1]), (- 5, [1, 2, 0])]
   \<and> Max (fst ` set small_population)
       \<le> Max (fst ` set [(- 9, [1, 0, 2]), (- 8, [0, 2, 1]), (- 5, [1 :: nat, 2, 0])])"
proof -
  have h: "small_population \<noteq> []" using small_population_heap by simp
  have u: "update_population (- 5, [1, 2, 0]) small_population
       = Inr [(- 9, [1, 0, 2]), (- 8, [0, 2, 1]), (- 5, [1, 2, 0])]"
    by (simp add: update_population_def heappushpop_def siftup_def siftdown_def
        siftup_loop.simps siftdown_loop.simps small_population_def less_prod_def)
  with best_fitness_never_decreases[OF h, of "(- 5, [1, 2, 0])"]
  have "Max (fst ` set small_population)
       \<le> Max (fst ` set [(- 9, [1, 0, 2]), (- 8, [0, 2, 1]), (- 5, [1 :: nat, 2, 0])])"
    by simp
  with h u show ?thesis by simp
qed


section \<open>Properties of the initial population\<close>


lemma fill_population_returns:
  assumes "is_tour g t0" "3 \<le> card (set (nodes g))"
    "valid_cuts r (int (card (set (nodes g))))"
    "\<forall>c. swath_reachable r (int (card (set (nodes g)))) c"
  shows "members_ok g population \<Longrightarrow>
         \<exists>population' c'. fill_population r g t0 k population c = Some (Inr population', c')
            \<and> length population' = length population + k \<and> members_ok g population'"
proof (induction k arbitrary: population c)
  case 0
  then show ?case by simp
next
  case (Suc k)
  from sim_tour[OF assms(1-3), of c] assms(4) obtain t' c' where
    s: "sim r t0 c = Some (Inr (), t', c')" "is_tour g t'"
    by auto
  let ?p = "population @ [(get_fitness t' g, t')]"
  from Suc.prems s(2) have "members_ok g ?p" by (simp add: members_ok_def)
  from Suc.IH[OF this, of c'] obtain population' c'' where
    "fill_population r g t0 k ?p c' = Some (Inr population', c'')"
    "length population' = length ?p + k" "members_ok g population'"
    by blast
  with s(1) show ?case by simp
qed


lemma generate_population_returns:
  assumes "enumerates order" "3 \<le> card (set (nodes g))" "1 \<le> size'"
    "valid_cuts r (int (card (set (nodes g))))"
    "\<forall>c'. swath_reachable r (int (card (set (nodes g)))) c'"
  shows "\<exists>population c'. generate_population order r g size' c = Some (Inr population, c')
           \<and> int (length population) = size' \<and> members_ok g population"
proof -
  from assms(2) have "nodes g \<noteq> []" by auto
  with greedy_permutation[OF assms(1)] obtain t where
    t: "greedy order g = Inr t" "is_tour g t" by blast
  let ?p = "[(get_fitness t g, t)]"
  have "members_ok g ?p" using t(2) by (simp add: members_ok_def)
  from fill_population_returns[OF t(2) assms(2,4,5) this, of "nat (size' - 1)" c]
  obtain population c' where
    "fill_population r g t (nat (size' - 1)) ?p c = Some (Inr population, c')"
    "length population = length ?p + nat (size' - 1)" "members_ok g population"
    by blast
  with t(1) assms(3) show ?thesis
    by (simp add: generate_population_def)
qed
lemma enumerates_id: "enumerates (\<lambda>xs. xs)"
  by (simp add: enumerates_def)








section \<open>Properties of the evolutionary loop\<close>

lemma getslice_map: "getslice (map f xs) sl = map f (getslice xs sl)"
  by (simp add: getslice_def take_map drop_map)

lemma setslice_map: "setslice (map f xs) sl (map f vs) = map f (setslice xs sl vs)"
  by (simp add: setslice_def take_map drop_map)

lemma sim_map:
  "sim r (map f seq) c = map_option (\<lambda>(res, seq', c'). (res, map f seq', c')) (sim r seq c)"
  by (auto simp: sim_def getslice_map setslice_map rev_map
      split: option.splits sum.splits)

lemma those_map_Some: "those (map Some xs) = Some xs"
  by (induction xs) simp_all

lemma max_from_mem: "max_from key best xs \<in> set (best # xs)"
  by (induction xs arbitrary: best) auto

lemma py_max_mem: "xs \<noteq> [] \<Longrightarrow> \<exists>x. py_max key xs = Inr x \<and> x \<in> set xs"
  using max_from_mem[of key "hd xs" "tl xs"]
  by (cases xs) (auto simp: py_max_def)

lemma tournament_selection_member:
  assumes "2 \<le> length population" "valid_picks r (length population)"
  shows "\<exists>m \<in> set population. tournament_selection r population c = Some (Inr (snd m), Suc c)"
proof -
  let ?i = "fst (picks (r c))" and ?j = "snd (picks (r c))"
  from assms(2) have "?i < length population" "?j < length population"
    by (simp_all add: valid_picks_def)
  then have "population ! ?i \<in> set population" "population ! ?j \<in> set population"
    by simp_all
  then show ?thesis
    using assms(1) by (auto simp: tournament_selection_def py_max_def)
qed

lemma select_two_parents_members:
  assumes "2 \<le> length population" "valid_picks r (length population)"
  shows "\<exists>m1 \<in> set population. \<exists>m2 \<in> set population.
           select_two_parents r population c = Some (Inr (snd m1, snd m2), Suc (Suc c))"
proof -
  from tournament_selection_member[OF assms, of c] obtain m1 where
    1: "m1 \<in> set population" "tournament_selection r population c = Some (Inr (snd m1), Suc c)"
    by blast
  from tournament_selection_member[OF assms, of "Suc c"] obtain m2 where
    2: "m2 \<in> set population"
       "tournament_selection r population (Suc c) = Some (Inr (snd m2), Suc (Suc c))"
    by blast
  from 1 2 show ?thesis by (auto simp: select_two_parents_def)
qed

lemma update_population_members:
  assumes "population \<noteq> []" "members_ok g population" "is_tour g tour"
  shows "\<exists>population'. update_population (get_fitness tour g, tour) population = Inr population'
           \<and> length population' = length population \<and> members_ok g population'"
proof -
  let ?item = "(get_fitness tour g, tour)"
  from update_population_cases[OF assms(1), of ?item] obtain population' where
    p: "update_population ?item population = Inr population'"
       "if fst ?item > fst (population ! 0)
        then mset population' = mset population - {#population ! 0#} + {#?item#}
        else population' = population"
    by blast
  show ?thesis
  proof (cases "fst ?item > fst (population ! 0)")
    case False
    with p assms(2) show ?thesis by simp
  next
    case True
    with p(2) have ms: "mset population' = mset population - {#population ! 0#} + {#?item#}"
      by simp
    from replaced_members(2)[OF ms] assms(2,3) have "members_ok g population'"
      by (auto simp: members_ok_def)
    with p(1) replaced_length[OF assms(1) ms] show ?thesis by simp
  qed
qed

lemma breed_returns:
  assumes "is_tour g p" "is_tour g s" "3 \<le> card (set (nodes g))"
    "valid_cuts r (int (card (set (nodes g))))"
    "\<forall>c. swath_reachable r (int (card (set (nodes g)))) c"
    "population \<noteq> []" "members_ok g population"
  shows "\<exists>population' c'. breed r g p s population c = Some (Inr population', c')
           \<and> length population' = length population \<and> members_ok g population'"
proof -
  from ox1_tour[OF assms(1-4), of c] assms(5) obtain child c1 where
    o: "ox1 r p s c = Some (Inr (map Some child), c1)" "is_tour g child"
    by auto
  have "\<exists>tour c2. (if coin (r c1) \<le> MUTATION_PROBA then sim r (map Some child) (Suc c1)
                 else Some (Inr (), map Some child, Suc c1))
            = Some (Inr (), map Some tour, c2) \<and> is_tour g tour"
  proof (cases "coin (r c1) \<le> MUTATION_PROBA")
    case False
    with o(2) show ?thesis by simp
  next
    case True
    from sim_tour[OF o(2) assms(3,4), of "Suc c1"] assms(5) obtain t' c2 where
      "sim r child (Suc c1) = Some (Inr (), t', c2)" "is_tour g t'"
      by auto
    with True show ?thesis by (simp add: sim_map)
  qed
  then obtain tour c2 where
    m: "(if coin (r c1) \<le> MUTATION_PROBA then sim r (map Some child) (Suc c1)
                 else Some (Inr (), map Some child, Suc c1))
            = Some (Inr (), map Some tour, c2)" "is_tour g tour"
    by blast
  from update_population_members[OF assms(6,7) m(2)] obtain population' where
    u: "update_population (get_fitness tour g, tour) population = Inr population'"
       "length population' = length population" "members_ok g population'"
    by blast
  have "breed r g p s population c = Some (Inr population', c2)"
    using m(1) o(1) u(1)
    by (cases "coin (r c1) \<le> MUTATION_PROBA") (auto simp: breed_def those_map_Some)
  with u(2,3) show ?thesis by simp
qed

lemma generation_returns:
  assumes "3 \<le> card (set (nodes g))"
    "valid_cuts r (int (card (set (nodes g))))"
    "\<forall>c. swath_reachable r (int (card (set (nodes g)))) c"
    "valid_picks r (length population)" "2 \<le> length population"
    "members_ok g population"
  shows "\<exists>population' c'. generation r g population c = Some (Inr population', c')
            \<and> length population' = length population \<and> members_ok g population'"
proof -
  from select_two_parents_members[OF assms(5,4), of c] obtain m1 m2 where
    sel: "m1 \<in> set population" "m2 \<in> set population"
         "select_two_parents r population c = Some (Inr (snd m1, snd m2), Suc (Suc c))"
    by blast
  with assms(6) have t: "is_tour g (snd m1)" "is_tour g (snd m2)"
    by (simp_all add: members_ok_def)
  from assms(5) have ne: "population \<noteq> []" by auto
  from breed_returns[OF t assms(1-3) ne assms(6), of "Suc (Suc c)"] obtain population1 c2
    where b1: "breed r g (snd m1) (snd m2) population (Suc (Suc c)) = Some (Inr population1, c2)"
      "length population1 = length population" "members_ok g population1"
    by blast
  from b1(2) ne have ne1: "population1 \<noteq> []" by auto
  from breed_returns[OF t(2,1) assms(1-3) ne1 b1(3), of c2] obtain population2 c3
    where b2: "breed r g (snd m2) (snd m1) population1 c2 = Some (Inr population2, c3)"
      "length population2 = length population1" "members_ok g population2"
    by blast
  from sel(3) b1(1,2) b2 show ?thesis by (simp add: generation_def)
qed

text \<open>
  A run of \<open>k\<close> generations from a population and a cursor: the populations and
  cursors between the generations.
\<close>

lemma evolve_returns:
  assumes "3 \<le> card (set (nodes g))"
    "valid_cuts r (int (card (set (nodes g))))"
    "\<forall>c. swath_reachable r (int (card (set (nodes g)))) c"
    "valid_picks r n" "2 \<le> n"
  shows "length population = n \<Longrightarrow> members_ok g population \<Longrightarrow>
         \<exists>ps cs. ps 0 = population \<and> cs 0 = c
            \<and> (\<forall>i<k. generation r g (ps i) (cs i) = Some (Inr (ps (Suc i)), cs (Suc i)))
            \<and> evolve r g k population c = Some (Inr (ps k), cs k)
            \<and> length (ps k) = n \<and> members_ok g (ps k)"
proof (induction k arbitrary: population c)
  case 0
  show ?case
    using 0 by (intro exI[of _ "\<lambda>i. population"] exI[of _ "\<lambda>i. c"]) simp
next
  case (Suc k)
  from Suc.prems(1) assms(4,5) have vp: "valid_picks r (length population)"
      "2 \<le> length population"
    by simp_all
  from generation_returns[OF assms(1-3) vp Suc.prems(2), of c] obtain population1 c1 where
    g1: "generation r g population c = Some (Inr population1, c1)"
        "length population1 = length population" "members_ok g population1"
    by blast
  from g1(2) Suc.prems(1) have l1: "length population1 = n" by simp
  let ?run = "\<lambda>ps cs. ps 0 = population1 \<and> cs 0 = c1
         \<and> (\<forall>i<k. generation r g (ps i) (cs i) = Some (Inr (ps (Suc i)), cs (Suc i)))
         \<and> evolve r g k population1 c1 = Some (Inr (ps k), cs k)
         \<and> length (ps k) = n \<and> members_ok g (ps k)"
  from l1 g1(3) have "\<exists>ps cs. ?run ps cs" by (rule Suc.IH)
  then obtain ps where "\<exists>cs. ?run ps cs" ..
  then obtain cs where "?run ps cs" ..
  then have run: "ps 0 = population1" "cs 0 = c1"
         "\<forall>i<k. generation r g (ps i) (cs i) = Some (Inr (ps (Suc i)), cs (Suc i))"
         "evolve r g k population1 c1 = Some (Inr (ps k), cs k)"
         "length (ps k) = n" "members_ok g (ps k)"
    by simp_all
  let ?ps = "\<lambda>i. case i of 0 \<Rightarrow> population | Suc j \<Rightarrow> ps j"
  let ?cs = "\<lambda>i. case i of 0 \<Rightarrow> c | Suc j \<Rightarrow> cs j"
  have "\<forall>i<Suc k. generation r g (?ps i) (?cs i) = Some (Inr (?ps (Suc i)), ?cs (Suc i))"
  proof (intro allI impI)
    fix i assume "i < Suc k"
    then show "generation r g (?ps i) (?cs i) = Some (Inr (?ps (Suc i)), ?cs (Suc i))"
      using g1(1) run(1,2,3) by (cases i) simp_all
  qed
  moreover have "evolve r g (Suc k) population c = Some (Inr (?ps (Suc k)), ?cs (Suc k))"
    using g1(1) run(4) by simp
  ultimately show ?case
    using run(5,6) by (intro exI[of _ ?ps] exI[of _ ?cs]) simp
qed
lemma fill_population_diverges:
  "sim r t0 c = None \<Longrightarrow> 0 < k \<Longrightarrow> fill_population r g t0 k population c = None"
  by (cases k) simp_all

lemma draws_from_valid_picks: "2 \<le> n \<Longrightarrow> valid_picks (draws_from xs d) n"
  by (simp add: valid_picks_def draws_from_def)


text \<open>
  Claim C9 (termination), as the code has it. The generation loop of \<open>genetic\<close>
  is a loop over \<open>range(MAX_ITERATIONS)\<close> (the recursion of \<open>evolve\<close> over the
  number of generations left), and the loops of \<open>generate_population\<close>,
  \<open>_fill_missing_genes\<close>, \<open>greedy\<close> and \<open>heapq\<close> are bounded. The two
  resampling loops of \<open>_get_valid_swath\<close> are rejection loops without a bound. For a
  graph with at least 3 nodes, a population size of at least 2, an iteration budget of
  at least 0, and an enumeration order and a sampler that keep their contracts: a call
  of \<open>_get_valid_swath\<close> returns exactly on the runs in which the sampler yields,
  from that call on, a slice of more than one element and, with it or after it, a slice
  that is not the whole sequence; and on every run in which this holds from every
  point on, the engine seeds the population, runs exactly \<open>max_iterations\<close>
  generations and returns a tour of the last population, a permutation of the node set.
\<close>

theorem genetic_returns_when_swaths_are_found:
  assumes "3 \<le> card (set (nodes g))" "2 \<le> population_size" "0 \<le> max_iterations"
    and "enumerates order" "valid_cuts r (int (card (set (nodes g))))"
    and "valid_picks r (nat population_size)"
  shows "(\<forall>c. (\<exists>res. get_valid_swath r (int (card (set (nodes g)))) c = Some res)
              \<longleftrightarrow> swath_reachable r (int (card (set (nodes g)))) c)
     \<and> ((\<forall>c. swath_reachable r (int (card (set (nodes g)))) c) \<longrightarrow>
          (\<exists>tour ps cs.
              generate_population order r g population_size c0 = Some (Inr (ps 0), cs 0)
              \<and> (\<forall>i<nat max_iterations.
                    generation r g (ps i) (cs i) = Some (Inr (ps (Suc i)), cs (Suc i)))
              \<and> genetic_with population_size max_iterations order r g c0
                    = Some (Inr tour, cs (nat max_iterations))
              \<and> tour \<in> snd ` set (ps (nat max_iterations))
              \<and> is_tour g tour))"
proof (intro conjI allI impI)
  fix c
  have n: "2 < int (card (set (nodes g)))" using assms(1) by simp
  show "(\<exists>res. get_valid_swath r (int (card (set (nodes g)))) c = Some res)
              \<longleftrightarrow> swath_reachable r (int (card (set (nodes g)))) c"
  proof
    assume ex: "\<exists>res. get_valid_swath r (int (card (set (nodes g)))) c = Some res"
    show "swath_reachable r (int (card (set (nodes g)))) c"
    proof (rule ccontr)
      assume "\<not> swath_reachable r (int (card (set (nodes g)))) c"
      with n have "get_valid_swath r (int (card (set (nodes g)))) c = None"
        by (rule get_valid_swath_diverges)
      with ex show False by simp
    qed
  next
    assume "swath_reachable r (int (card (set (nodes g)))) c"
    from get_valid_swath_returns[OF n this]
    show "\<exists>res. get_valid_swath r (int (card (set (nodes g)))) c = Some res" by blast
  qed
next
  assume reach: "\<forall>c. swath_reachable r (int (card (set (nodes g)))) c"
  from assms(2) have "1 \<le> population_size" by simp
  from generate_population_returns[OF assms(4,1) this assms(5) reach, of c0]
  obtain population c1 where
    gp: "generate_population order r g population_size c0 = Some (Inr population, c1)"
        "int (length population) = population_size" "members_ok g population"
    by blast
  from gp(2) assms(2) have len: "length population = nat population_size"
      "2 \<le> nat population_size"
    by simp_all
  let ?run = "\<lambda>ps cs. ps 0 = population \<and> cs 0 = c1
            \<and> (\<forall>i<nat max_iterations.
                  generation r g (ps i) (cs i) = Some (Inr (ps (Suc i)), cs (Suc i)))
            \<and> evolve r g (nat max_iterations) population c1
                  = Some (Inr (ps (nat max_iterations)), cs (nat max_iterations))
            \<and> length (ps (nat max_iterations)) = nat population_size
            \<and> members_ok g (ps (nat max_iterations))"
  have "\<exists>ps cs. ?run ps cs"
    using assms(1,5) reach assms(6) len(2) len(1) gp(3) by (rule evolve_returns)
  then obtain ps where "\<exists>cs. ?run ps cs" ..
  then obtain cs where run: "?run ps cs" ..
  from run have ev: "ps 0 = population" "cs 0 = c1"
        "\<forall>i<nat max_iterations.
            generation r g (ps i) (cs i) = Some (Inr (ps (Suc i)), cs (Suc i))"
        "evolve r g (nat max_iterations) population c1
           = Some (Inr (ps (nat max_iterations)), cs (nat max_iterations))"
        "length (ps (nat max_iterations)) = nat population_size"
        "members_ok g (ps (nat max_iterations))"
    by simp_all
  from ev(5) len(2) have "ps (nat max_iterations) \<noteq> []" by auto
  from py_max_mem[OF this, of fst] obtain best where
    b: "py_max fst (ps (nat max_iterations)) = Inr best" "best \<in> set (ps (nat max_iterations))"
    by blast
  from b(2) ev(6) have tour: "is_tour g (snd best)" by (simp add: members_ok_def)
  have res: "genetic_with population_size max_iterations order r g c0
                   = Some (Inr (snd best), cs (nat max_iterations))"
    using gp(1) ev(4) b(1) by (simp add: genetic_with_def)
  have seed: "generate_population order r g population_size c0 = Some (Inr (ps 0), cs 0)"
    using gp(1) ev(1,2) by simp
  have mem: "snd best \<in> snd ` set (ps (nat max_iterations))" using b(2) by simp
  show "\<exists>tour ps cs.
              generate_population order r g population_size c0 = Some (Inr (ps 0), cs 0)
              \<and> (\<forall>i<nat max_iterations.
                    generation r g (ps i) (cs i) = Some (Inr (ps (Suc i)), cs (Suc i)))
              \<and> genetic_with population_size max_iterations order r g c0
                    = Some (Inr tour, cs (nat max_iterations))
              \<and> tour \<in> snd ` set (ps (nat max_iterations))
              \<and> is_tour g tour"
    using seed ev(3) res mem tour
    by (intro exI[of _ "snd best"] exI[of _ ps] exI[of _ cs] conjI)
qed

theorem genetic_returns_when_swaths_are_found_witness:
  "3 \<le> card (set (nodes line_graph)) \<and> (2 :: int) \<le> 2 \<and> (0 :: int) \<le> 1
   \<and> enumerates (\<lambda>xs. xs :: nat list)
   \<and> valid_cuts (draws_from [(3, 1)] (0, 2)) (int (card (set (nodes line_graph))))
   \<and> valid_picks (draws_from [(3, 1)] (0, 2)) (nat 2)
   \<and> (\<forall>c. swath_reachable (draws_from [(3, 1)] (0, 2)) (int (card (set (nodes line_graph)))) c)
   \<and> genetic_with 2 1 (\<lambda>xs. xs) (draws_from [(3, 1)] (0, 2)) line_graph 0
       = Some (Inr [0, 2, 3, 1], 7)"
proof -
  let ?r = "draws_from [(3, 1)] (0, 2)"
  have card: "card (set (nodes line_graph)) = 4" by (simp add: line_graph_def)
  have 1: "3 \<le> card (set (nodes line_graph))" by (simp add: card)
  have 2: "(2 :: int) \<le> 2" and 3: "(0 :: int) \<le> 1" by simp_all
  have 4: "enumerates (\<lambda>xs. xs :: nat list)" by (rule enumerates_id)
  have 5: "valid_cuts ?r (int (card (set (nodes line_graph))))"
    unfolding card by (rule draws_from_valid) simp
  have 6: "valid_picks ?r (nat 2)" by (rule draws_from_valid_picks) simp
  have 7: "\<forall>c. swath_reachable ?r (int (card (set (nodes line_graph)))) c"
    by (intro allI draws_from_reachable) (simp_all add: too_short_def covers_all_def card)
  from genetic_returns_when_swaths_are_found[OF 1 2 3 4 5 6, of 0] 7
  obtain tour c' where "genetic_with 2 1 (\<lambda>xs. xs) ?r line_graph 0 = Some (Inr tour, c')"
    by blast
  moreover have gp: "generate_population (\<lambda>xs. xs) ?r line_graph 2 0
       = Some (Inr [(- 10, [0, 2, 3, 1]), (- 14, [0, 3, 2, 1])], 1)"
    by (simp add: generate_population_def greedy_def greedy_loop.simps py_min_def
      line_graph_def get_fitness_def tour_length_def sim_def get_valid_swath_def
      random_slice_def resample_short.simps resample_full.simps draws_from_def
      setslice_def getslice_def eval_nat_numeral)
  have sel: "select_two_parents ?r [(- 10, [0, 2, 3, 1 :: nat]), (- 14, [0, 3, 2, 1])] 1
      = Some (Inr ([0, 2, 3, 1], [0, 2, 3, 1]), 3)"
    by (simp add: select_two_parents_def tournament_selection_def py_max_def draws_from_def)
  have ox: "ox1 ?r [0, 2, 3, 1 :: nat] [0, 2, 3, 1] 3 = Some (Inr (map Some [0, 2, 3, 1]), 4)"
     and ox': "ox1 ?r [0, 2, 3, 1 :: nat] [0, 2, 3, 1] 5 = Some (Inr (map Some [0, 2, 3, 1]), 6)"
    by (simp_all add: ox1_def get_valid_swath_def random_slice_def resample_short.simps
        resample_full.simps draws_from_def ox1_with_def fill_missing_genes_def getslice_def
        setslice_def Let_def upt_rec[of 0] upt_rec[of 1] upt_rec[of 2] upt_rec[of 3]
        upt_rec[of 4])
  have br: "breed ?r line_graph [0, 2, 3, 1] [0, 2, 3, 1]
               [(- 10, [0, 2, 3, 1]), (- 14, [0, 3, 2, 1])] 3
             = Some (Inr [(- 10, [0, 2, 3, 1]), (- 14, [0, 3, 2, 1])], 5)"
    unfolding breed_def ox
    by (simp add: draws_from_def MUTATION_PROBA_def update_population_def get_fitness_def
        tour_length_def line_graph_def)
  have br': "breed ?r line_graph [0, 2, 3, 1] [0, 2, 3, 1]
               [(- 10, [0, 2, 3, 1]), (- 14, [0, 3, 2, 1])] 5
             = Some (Inr [(- 10, [0, 2, 3, 1]), (- 14, [0, 3, 2, 1])], 7)"
    unfolding breed_def ox'
    by (simp add: draws_from_def MUTATION_PROBA_def update_population_def get_fitness_def
        tour_length_def line_graph_def)
  have ev: "evolve ?r line_graph (Suc 0) [(- 10, [0, 2, 3, 1]), (- 14, [0, 3, 2, 1])] 1
             = Some (Inr [(- 10, [0, 2, 3, 1]), (- 14, [0, 3, 2, 1])], 7)"
    by (simp only: evolve.simps generation_def sel br br' option.case sum.case prod.case)
  have n1: "nat 1 = Suc 0" by simp
  have pm: "py_max fst [(- 10, [0, 2, 3, 1 :: nat]), (- 14 :: real, [0, 3, 2, 1])]
              = Inr (- 10, [0, 2, 3, 1])"
    by (simp add: py_max_def)
  have "genetic_with 2 1 (\<lambda>xs. xs) ?r line_graph 0 = Some (Inr [0, 2, 3, 1], 7)"
    by (simp only: genetic_with_def gp n1 ev pm option.case sum.case prod.case snd_conv)
  with 1 2 3 4 5 6 7 show ?thesis by blast
qed


text \<open>
  Claim C9 as the specification states it fails: on the graph of four nodes, with the
  module's population size and iteration budget, when the sampler yields the cut points
  \<open>(0, 1)\<close> at every draw (an admissible outcome of \<open>sample(range(5), 2)\<close> each
  time), the first loop of \<open>_get_valid_swath\<close> never ends, and \<open>genetic\<close> does
  not return.
\<close>

theorem genetic_never_returns:
  "3 \<le> card (set (nodes line_graph)) \<and> 2 \<le> POPULATION_SIZE \<and> 0 \<le> MAX_ITERATIONS
   \<and> enumerates (\<lambda>xs. xs :: nat list)
   \<and> valid_cuts (draws_from [] (0, 1)) (int (card (set (nodes line_graph))))
   \<and> valid_picks (draws_from [] (0, 1)) (nat POPULATION_SIZE)
   \<and> get_valid_swath (draws_from [] (0, 1)) (int (card (set (nodes line_graph)))) 0 = None
   \<and> genetic (\<lambda>xs. xs) (draws_from [] (0, 1)) line_graph 0 = None"
proof -
  let ?r = "draws_from [] (0, 1)"
  have card: "card (set (nodes line_graph)) = 4" by (simp add: line_graph_def)
  have 1: "3 \<le> card (set (nodes line_graph))" by (simp add: card)
  have 2: "2 \<le> POPULATION_SIZE" and 3: "0 \<le> MAX_ITERATIONS"
    by (simp_all add: POPULATION_SIZE_def MAX_ITERATIONS_def)
  have 4: "enumerates (\<lambda>xs. xs :: nat list)" by (rule enumerates_id)
  have 5: "valid_cuts ?r (int (card (set (nodes line_graph))))"
    unfolding card by (rule draws_from_valid) simp
  have 6: "valid_picks ?r (nat POPULATION_SIZE)"
    by (rule draws_from_valid_picks) (simp add: POPULATION_SIZE_def)
  have un: "\<not> swath_reachable ?r (int (card (set (nodes line_graph)))) 0"
    by (simp add: swath_reachable_def draws_from_def cut_slice_def too_short_def)
  have 7: "get_valid_swath ?r (int (card (set (nodes line_graph)))) 0 = None"
    using un by (intro get_valid_swath_diverges) (simp_all add: card)
  have g: "greedy (\<lambda>xs. xs) line_graph = Inr [0, 2, 3, 1]"
    by (simp add: greedy_def line_graph_def py_min_def)
  have t: "is_tour line_graph [0, 2, 3, 1]"
    by (simp add: is_tour_def line_graph_def) auto
  from sim_tour[OF t 1 5, of 0] un have s: "sim ?r [0, 2, 3, 1 :: nat] 0 = None" by simp
  have "0 < nat (POPULATION_SIZE - 1)" by (simp add: POPULATION_SIZE_def)
  with s g have "generate_population (\<lambda>xs. xs) ?r line_graph POPULATION_SIZE 0 = None"
    by (simp add: generate_population_def fill_population_diverges)
  then have 8: "genetic (\<lambda>xs. xs) ?r line_graph 0 = None"
    by (simp add: genetic_def genetic_with_def)
  from 1 2 3 4 5 6 7 8 show ?thesis by blast
qed


end
